theory Spec2Isabelle
  imports Main
begin

section \<open>Python values and errors\<close>

text \<open>Exceptions of the source are values: every raise is a branch returning \<open>Inl\<close>.\<close>

datatype py_error =
    KeyError
  | RuntimeError
  | ValueError
  | IndexError
  | AttributeError
  | UnboundLocalError
  | NO_SUCH_OBJECT
  | INVALID_DN_SYNTAX
  | TypeError

subsection \<open>Decimal text of integers: Python's \<open>str\<close> and \<open>int\<close>\<close>

definition digit_chars :: string where
  "digit_chars = ''0123456789''"

function nat_str :: "nat \<Rightarrow> string" where
  "nat_str n = (if n < 10 then [digit_chars ! n]
                else nat_str (n div 10) @ [digit_chars ! (n mod 10)])"
  by pat_completeness auto
termination
  by (relation "measure id") auto

declare nat_str.simps [simp del]

definition py_str :: "int \<Rightarrow> string" where
  "py_str i = (if i < 0 then CHR ''-'' # nat_str (nat (- i)) else nat_str (nat i))"

fun digit_val :: "char \<Rightarrow> string \<Rightarrow> nat \<Rightarrow> nat option" where
  "digit_val c [] k = None"
| "digit_val c (d # ds) k = (if c = d then Some k else digit_val c ds (Suc k))"

text \<open>Left-to-right accumulation of a digit string; \<open>None\<close> when a character is no digit.\<close>

fun parse_digits :: "string \<Rightarrow> nat \<Rightarrow> nat option" where
  "parse_digits [] acc = Some acc"
| "parse_digits (c # cs) acc =
     (case digit_val c digit_chars 0 of
        None \<Rightarrow> None
      | Some d \<Rightarrow> parse_digits cs (10 * acc + d))"

definition is_space :: "char \<Rightarrow> bool" where
  "is_space c = (c \<in> set [CHR '' '', CHR 0x09, CHR 0x0A, CHR 0x0B, CHR 0x0C, CHR 0x0D])"

definition strip :: "string \<Rightarrow> string" where
  "strip s = rev (dropWhile is_space (rev (dropWhile is_space s)))"

text \<open>\<open>int(s)\<close> on decimal text: surrounding white space and one sign are accepted,
  anything else raises \<open>ValueError\<close>.\<close>

definition py_int :: "string \<Rightarrow> py_error + int" where
  "py_int s =
     (case strip s of
        [] \<Rightarrow> Inl ValueError
      | c # cs \<Rightarrow>
          (if c = CHR ''-'' \<or> c = CHR ''+'' then
             (if cs = [] then Inl ValueError
              else case parse_digits cs 0 of
                     None \<Rightarrow> Inl ValueError
                   | Some n \<Rightarrow> Inr (if c = CHR ''-'' then - int n else int n))
           else case parse_digits (c # cs) 0 of
                  None \<Rightarrow> Inl ValueError
                | Some n \<Rightarrow> Inr (int n)))"

section \<open>ugm/posix.py: default-value callbacks\<close>

text \<open>
  One element of a search result requested with an attribute list: the key and the
  attribute dictionary, whose values are lists of text.
\<close>

type_synonym result_item = "string \<times> (string \<times> string list) list"

text \<open>
  The node argument of a callback. \<open>None\<close> is Python's \<open>None\<close>; a node is truthy.
  Of a node the callbacks use only
  \<open>node.search(criteria={a: '*'}, attrlist=[a])\<close>, so a node is the function from the
  attribute name \<open>a\<close> to what that call returns or raises.
\<close>

type_synonym posix_node = "string \<Rightarrow> py_error + result_item list"

text \<open>\<open>int(item[1][a][0])\<close>: dictionary lookup, first element, conversion.\<close>

definition item_number :: "string \<Rightarrow> result_item \<Rightarrow> py_error + int" where
  "item_number a item =
     (case map_of (snd item) a of
        None \<Rightarrow> Inl KeyError
      | Some vs \<Rightarrow> (case vs of [] \<Rightarrow> Inl IndexError | v # _ \<Rightarrow> py_int v))"

text \<open>The list comprehension: the first failing element raises.\<close>

fun item_numbers :: "string \<Rightarrow> result_item list \<Rightarrow> py_error + int list" where
  "item_numbers a [] = Inr []"
| "item_numbers a (item # rest) =
     (case item_number a item of
        Inl e \<Rightarrow> Inl e
      | Inr n \<Rightarrow> (case item_numbers a rest of Inl e \<Rightarrow> Inl e | Inr ns \<Rightarrow> Inr (n # ns)))"

text \<open>
  \<open>uidNumber\<close>. The module global \<open>uidNumber_tmp\<close> (initially the empty text) is the
  first argument and the second component of the result. The function body assigns to
  the name \<open>uidNumber_tmp\<close> without a \<open>global\<close> declaration, so in the body the name is
  a local variable: the branch for a missing node reads the local before any assignment,
  which raises \<open>UnboundLocalError\<close>, and the assignment at the end never reaches the
  module global.
\<close>

definition uidNumber_tmp_init :: string where
  "uidNumber_tmp_init = []"

definition uidNumber :: "string \<Rightarrow> posix_node option \<Rightarrow> string \<Rightarrow> py_error + (string \<times> string)" where
  "uidNumber uidNumber_tmp node ident =
     (case node of
        None \<Rightarrow> Inl UnboundLocalError
      | Some nd \<Rightarrow>
          (case nd ''uidNumber'' of
             Inl e \<Rightarrow> Inl e
           | Inr existing \<Rightarrow>
               (case item_numbers ''uidNumber'' existing of
                  Inl e \<Rightarrow> Inl e
                | Inr uidNumbers \<Rightarrow>
                    (let sorted_numbers = sort uidNumbers in
                     if sorted_numbers = [] then Inr (''100'', uidNumber_tmp)
                     else Inr (py_str (last sorted_numbers + 1), uidNumber_tmp)))))"

definition gidNumber :: "posix_node option \<Rightarrow> string \<Rightarrow> py_error + string" where
  "gidNumber node ident =
     (case node of
        None \<Rightarrow> Inr ''''
      | Some nd \<Rightarrow>
          (case nd ''gidNumber'' of
             Inl e \<Rightarrow> Inl e
           | Inr existing \<Rightarrow>
               (case item_numbers ''gidNumber'' existing of
                  Inl e \<Rightarrow> Inl e
                | Inr gidNumbers \<Rightarrow>
                    (let sorted_numbers = sort gidNumbers in
                     if sorted_numbers = [] then Inr ''100''
                     else Inr (py_str (last sorted_numbers + 1))))))"

section \<open>_node.py: data model\<close>

text \<open>
  Python values that attributes hold: text (\<open>unicode\<close>), byte strings (\<open>str\<close>) and lists.
  Texts are taken to be ASCII, so the character conversion keeps the code units and
  \<open>encode\<close>/\<open>decode\<close> of \<open>node.utils\<close> change the kind of string only.
\<close>

datatype pyval = Unicode string | Str string | PyList "pyval list"

fun encode :: "pyval \<Rightarrow> pyval" where
  "encode (Unicode s) = Str s"
| "encode (Str s) = Str s"
| "encode (PyList vs) = PyList (map encode vs)"

fun decode :: "pyval \<Rightarrow> pyval" where
  "decode (Unicode s) = Unicode s"
| "decode (Str s) = Unicode s"
| "decode (PyList vs) = PyList (map decode vs)"

text \<open>Python 2 compares an ASCII text and the byte string of the same characters equal.\<close>

fun py_eq :: "pyval \<Rightarrow> pyval \<Rightarrow> bool"
  and py_eq_list :: "pyval list \<Rightarrow> pyval list \<Rightarrow> bool" where
  "py_eq (Unicode s) (Unicode t) = (s = t)"
| "py_eq (Unicode s) (Str t) = (s = t)"
| "py_eq (Str s) (Unicode t) = (s = t)"
| "py_eq (Str s) (Str t) = (s = t)"
| "py_eq (PyList vs) (PyList ws) = py_eq_list vs ws"
| "py_eq (PyList vs) (Unicode t) = False"
| "py_eq (PyList vs) (Str t) = False"
| "py_eq (Unicode s) (PyList ws) = False"
| "py_eq (Str s) (PyList ws) = False"
| "py_eq_list [] [] = True"
| "py_eq_list (v # vs) (w # ws) = (py_eq v w \<and> py_eq_list vs ws)"
| "py_eq_list [] (w # ws) = False"
| "py_eq_list (v # vs) [] = False"

text \<open>
  A Python \<open>set\<close> of keys is a list without duplicates; the order of the list is the
  order in which iteration yields the elements. \<open>remove\<close> raises \<open>KeyError\<close> on a
  missing element. The elements are names of nodes: a text, or \<open>None\<close> for Python's
  \<open>None\<close>.
\<close>

type_synonym key_set = "string option list"

definition set_add :: "string option \<Rightarrow> key_set \<Rightarrow> key_set" where
  "set_add k s = (if k \<in> set s then s else s @ [k])"

definition set_remove :: "string option \<Rightarrow> key_set \<Rightarrow> py_error + key_set" where
  "set_remove k s = (if k \<in> set s then Inr (removeAll k s) else Inl KeyError)"

text \<open>An ordered dictionary: assignment keeps the place of a key that is present.\<close>

fun odict_set :: "'k \<Rightarrow> 'v \<Rightarrow> ('k \<times> 'v) list \<Rightarrow> ('k \<times> 'v) list" where
  "odict_set k v [] = [(k, v)]"
| "odict_set k v ((k', v') # rest) =
     (if k = k' then (k, v) # rest else (k', v') # odict_set k v rest)"

definition odict_del :: "'k \<Rightarrow> ('k \<times> 'v) list \<Rightarrow> ('k \<times> 'v) list" where
  "odict_del k d = filter (\<lambda>kv. fst kv \<noteq> k) d"

datatype action = ACTION_ADD | ACTION_MODIFY | ACTION_DELETE

datatype scope = BASE | ONELEVEL

type_synonym nid = nat

text \<open>
  The attribute container of a node: the items and its own \<open>changed\<close> flag. The flag is
  an attribute of the object that exists once it has been assigned (\<open>None\<close> before: reading
  it raises \<open>AttributeError\<close>).
\<close>

record attributes =
  items :: "(string \<times> pyval) list"
  attrs_changed :: "bool option"

text \<open>
  The fields of \<open>LDAPStorage.__init__\<close>. \<open>attrs_ns\<close> is \<open>nodespaces['__attrs__']\<close>
  (\<open>None\<close> while the attributes are not created: the lookup raises \<open>KeyError\<close>),
  \<open>ldap_session\<close> tells whether \<open>_ldap_session\<close> is set (one session serves the tree),
  \<open>storage\<close> is the ordered child cache, holding the addresses of the child nodes.
\<close>

record node =
  name :: "string option"
  parent :: "nid option"
  dn :: "string option"
  ldap_session :: bool
  changed :: bool
  action :: "action option"
  added_children :: key_set
  modified_children :: key_set
  deleted_children :: key_set
  attrs_ns :: "attributes option"
  storage :: "(string \<times> nid) list"
  reload :: bool
  key_attr :: string
  search_scope :: scope

definition new_node :: node where
  "new_node = \<lparr> name = None, parent = None, dn = None, ldap_session = False,
      changed = False, action = None, added_children = [], modified_children = [],
      deleted_children = [], attrs_ns = None, storage = [], reload = False,
      key_attr = ''rdn'', search_scope = ONELEVEL \<rparr>"

text \<open>
  Nodes are objects with identity, shared between the child cache of the parent and the
  callers: the store is the list of all nodes, a node's address its index.
\<close>

type_synonym heap = "node list"

subsection \<open>The \<open>changed\<close> property\<close>

text \<open>
  \<open>self.nodespaces['__attrs__'].changed\<close>, as the setter reads it: \<open>KeyError\<close> (which the
  setter catches and takes for unchanged attributes) while no container is registered,
  \<open>AttributeError\<close> when the registered container never had its flag assigned.
\<close>

definition attrs_flag :: "node \<Rightarrow> py_error + bool" where
  "attrs_flag nd =
     (case attrs_ns nd of
        None \<Rightarrow> Inl KeyError
      | Some a \<Rightarrow> (case attrs_changed a of None \<Rightarrow> Inl AttributeError | Some c \<Rightarrow> Inr c))"

definition attrs_are_changed :: "node \<Rightarrow> bool" where
  "attrs_are_changed nd = (attrs_flag nd = Inr True)"

text \<open>
  \<open>_set_changed\<close>. The call on the parent is the recursion; every call that goes on
  flips the flag of one node to \<open>v\<close>, which bounds the number of calls. The result is
  the outcome and the store: an exception leaves the flags written before it.
\<close>

function set_changed :: "heap \<Rightarrow> nid \<Rightarrow> bool \<Rightarrow> (py_error + unit) \<times> heap" where
  "set_changed h n v =
     (if \<not> n < length h then (Inr (), h)
      else let nd = h ! n in
        if v = changed nd then (Inr (), h)
        else if v then
          (let h' = h[n := nd\<lparr>changed := True\<rparr>] in
           case parent nd of None \<Rightarrow> (Inr (), h') | Some p \<Rightarrow> set_changed h' p True)
        else if added_children nd \<noteq> [] \<or> modified_children nd \<noteq> []
                \<or> deleted_children nd \<noteq> [] then (Inr (), h)
        else if attrs_flag nd = Inl AttributeError then (Inl AttributeError, h)
        else if attrs_flag nd = Inr True then (Inr (), h)
        else
          (let h' = h[n := nd\<lparr>changed := False\<rparr>] in
           case parent nd of None \<Rightarrow> (Inr (), h') | Some p \<Rightarrow> set_changed h' p False))"
  by pat_completeness auto

lemma filter_update_less:
  "n < length h \<Longrightarrow> P (h ! n) \<Longrightarrow> \<not> P x \<Longrightarrow>
   length (filter P (h[n := x])) < length (filter P h)"
proof (induction h arbitrary: n)
  case Nil
  then show ?case by simp
next
  case (Cons a h)
  show ?case
  proof (cases n)
    case 0
    with Cons.prems show ?thesis by (simp add: less_Suc_eq_le)
  next
    case (Suc m)
    with Cons show ?thesis by simp
  qed
qed

termination set_changed
  apply (relation "measure (\<lambda>(h, n, v). length (filter (\<lambda>nd. changed nd \<noteq> v) h))")
    apply simp
   apply (simp add: filter_update_less)
  apply (simp add: filter_update_less)
  done

declare set_changed.simps [simp del]

subsection \<open>The directory session\<close>

text \<open>The arguments of one search call on the session.\<close>

record query =
  q_filter :: "string option"
  q_scope :: scope
  q_baseDN :: string
  q_force_reload :: bool
  q_attrlist :: "string list"
  q_page_size :: "nat option"
  q_cookie :: "string option"

text \<open>A directory entry as the session returns it: the DN and the attribute dictionary.\<close>

type_synonym entry = "string \<times> (string \<times> string list) list"

datatype modop = MOD_ADD | MOD_DELETE | MOD_REPLACE

datatype ldap_call =
    Search query
  | Add string "(string \<times> pyval) list"
  | Modify string "(modop \<times> string \<times> pyval option) list"
  | Delete string

text \<open>
  Modelled from the spec: the directory session (\<open>LDAPSession\<close>), the filter classes and
  the root configuration are not part of the sources at hand. The session is any
  deterministic directory: \<open>ldap_search\<close> answers a query, given all calls made before,
  with a failure or with the entries and, for a paged search, the continuation cookie.
  \<open>render_filter\<close> stands for the filter classes: it maps the node and the filter
  arguments of \<open>search\<close> to the rendered filter text. \<open>explode_dn\<close> is the function of
  that name of the LDAP client library. \<open>binary_attributes\<close> and \<open>multivalued_attributes\<close>
  are the name sets configured at the root, which \<open>is_binary\<close> and \<open>is_multivalued\<close> read
  through \<open>self.parent.root\<close>. The method \<open>clear\<close> of the attribute container comes from the
  mapping behaviors of the node package: \<open>clear_notifies\<close> tells whether it deletes the
  items one by one through the plumbed \<open>__delitem__\<close>, or empties the storage at once.
\<close>

record ldap_env =
  ldap_search :: "ldap_call list \<Rightarrow> query \<Rightarrow> py_error + (entry list \<times> string option)"
  render_filter :: "node \<Rightarrow> string \<Rightarrow> string"
  explode_dn :: "string \<Rightarrow> string list"
  binary_attributes :: "string list"
  multivalued_attributes :: "string list"
  clear_notifies :: bool

text \<open>The mutable world: the nodes and the calls made on the session so far.\<close>

record world =
  heap :: heap
  calls :: "ldap_call list"

text \<open>
  One search call on the session: the call is recorded, and the reply is a pair with a
  cookie only when a page size was given.
\<close>

definition session_search ::
  "ldap_env \<Rightarrow> world \<Rightarrow> query \<Rightarrow> (py_error + (entry list \<times> string option)) \<times> world" where
  "session_search S w q =
     (let w' = w\<lparr>calls := calls w @ [Search q]\<rparr> in
      case ldap_search S (calls w) q of
        Inl e \<Rightarrow> (Inl e, w')
      | Inr (entries, cookie) \<Rightarrow>
          (Inr (entries, if q_page_size q = None then None else cookie), w'))"

text \<open>The write calls of the session return nothing; each is recorded.\<close>

definition session_call :: "world \<Rightarrow> ldap_call \<Rightarrow> world" where
  "session_call w c = w\<lparr>calls := calls w @ [c]\<rparr>"

text \<open>The calls that only read the directory.\<close>

definition is_search :: "ldap_call \<Rightarrow> bool" where
  "is_search c = (case c of Search q \<Rightarrow> True | _ \<Rightarrow> False)"

definition is_binary :: "ldap_env \<Rightarrow> string \<Rightarrow> bool" where
  "is_binary S k = (k \<in> set (binary_attributes S))"

definition is_multivalued :: "ldap_env \<Rightarrow> string \<Rightarrow> bool" where
  "is_multivalued S k = (k \<in> set (multivalued_attributes S))"

subsection \<open>Distinguished names\<close>

text \<open>Truth value of an optional text: \<open>None\<close> and the empty text are false.\<close>

definition truthy :: "string option \<Rightarrow> bool" where
  "truthy s = (case s of None \<Rightarrow> False | Some t \<Rightarrow> t \<noteq> [])"

text \<open>\<open>u','.join([a, b])\<close>: \<open>TypeError\<close> when one part is \<open>None\<close>.\<close>

definition join_comma :: "string option \<Rightarrow> string option \<Rightarrow> py_error + string" where
  "join_comma a b =
     (case (a, b) of
        (Some x, Some y) \<Rightarrow> Inr (x @ '','' @ y)
      | _ \<Rightarrow> Inl TypeError)"

definition child_dn :: "node \<Rightarrow> string option \<Rightarrow> py_error + string" where
  "child_dn nd key =
     (if truthy (dn nd) then join_comma key (dn nd) else join_comma key (name nd))"

definition DN :: "heap \<Rightarrow> nid \<Rightarrow> py_error + string" where
  "DN h n =
     (case parent (h ! n) of
        Some p \<Rightarrow> child_dn (h ! p) (name (h ! n))
      | None \<Rightarrow>
          (case name (h ! n) of
             Some t \<Rightarrow> (if t \<noteq> [] then Inr t else Inr [])
           | None \<Rightarrow> Inr []))"

subsection \<open>LDAPAttributesBehavior\<close>

text \<open>
  An attribute container is either the one registered in the node's name space
  (\<open>Registered\<close>: it is the object read by the \<open>changed\<close> setter of the node) or an object
  of its own (\<open>Detached\<close>: the container under construction, and the snapshot built by
  \<open>_ldap_modify\<close>). The operations take and return the container; for a registered one
  every write is stored in the node at once.
\<close>

datatype attrs_loc = Registered | Detached

definition update_node :: "nid \<Rightarrow> (node \<Rightarrow> node) \<Rightarrow> world \<Rightarrow> world" where
  "update_node n f w = w\<lparr>heap := (heap w)[n := f (heap w ! n)]\<rparr>"

definition put_attrs :: "attrs_loc \<Rightarrow> nid \<Rightarrow> attributes \<Rightarrow> world \<Rightarrow> world" where
  "put_attrs loc n a w =
     (case loc of
        Registered \<Rightarrow> update_node n (\<lambda>nd. nd\<lparr>attrs_ns := Some a\<rparr>) w
      | Detached \<Rightarrow> w)"

definition pending_add_or_delete :: "node \<Rightarrow> bool" where
  "pending_add_or_delete nd = (action nd = Some ACTION_ADD \<or> action nd = Some ACTION_DELETE)"

text \<open>
  \<open>_set_attrs_modified\<close>. Setting the flag of the node raises nothing (only the unsetting
  reads the attribute container), so the store of the setter is all that is kept.
\<close>

definition set_attrs_modified ::
  "attrs_loc \<Rightarrow> world \<Rightarrow> nid \<Rightarrow> attributes \<Rightarrow> world \<times> attributes" where
  "set_attrs_modified loc w n a =
     (let a1 = a\<lparr>attrs_changed := Some True\<rparr>;
          w1 = put_attrs loc n a1 w
      in if pending_add_or_delete (heap w1 ! n) then (w1, a1)
         else
           (let w2 = update_node n (\<lambda>nd. nd\<lparr>action := Some ACTION_MODIFY\<rparr>) w1;
                w3 = w2\<lparr>heap := snd (set_changed (heap w2) n True)\<rparr>
            in case parent (heap w3 ! n) of
                 None \<Rightarrow> (w3, a1)
               | Some p \<Rightarrow>
                   (update_node p
                      (\<lambda>pn. pn\<lparr>modified_children :=
                                  set_add (name (heap w3 ! n)) (modified_children pn)\<rparr>) w3,
                    a1)))"

text \<open>The plumbed \<open>__setitem__\<close> and \<open>__delitem__\<close> of the attributes.\<close>

definition attrs_setitem ::
  "ldap_env \<Rightarrow> attrs_loc \<Rightarrow> world \<Rightarrow> nid \<Rightarrow> attributes \<Rightarrow> string \<Rightarrow> pyval \<Rightarrow> world \<times> attributes" where
  "attrs_setitem S loc w n a key val =
     (let val' = (if \<not> is_binary S key then decode val else val);
          a1 = a\<lparr>items := odict_set key val' (items a)\<rparr>;
          w1 = put_attrs loc n a1 w
      in set_attrs_modified loc w1 n a1)"

definition delete_present ::
  "attrs_loc \<Rightarrow> world \<Rightarrow> nid \<Rightarrow> attributes \<Rightarrow> string \<Rightarrow> world \<times> attributes" where
  "delete_present loc w n a key =
     (let a1 = a\<lparr>items := odict_del key (items a)\<rparr>;
          w1 = put_attrs loc n a1 w
      in set_attrs_modified loc w1 n a1)"

definition attrs_delitem ::
  "attrs_loc \<Rightarrow> world \<Rightarrow> nid \<Rightarrow> attributes \<Rightarrow> string \<Rightarrow> (py_error + unit) \<times> world \<times> attributes" where
  "attrs_delitem loc w n a key =
     (if key \<notin> fst ` set (items a) then (Inl KeyError, w, a)
      else (let (w2, a2) = delete_present loc w n a key in (Inr (), w2, a2)))"

text \<open>
  \<open>clear\<close>: either every key of the container is deleted in turn, as \<open>__delitem__\<close> does
  for a key that is present, or the items are dropped without any notification.
\<close>

fun clear_keys ::
  "attrs_loc \<Rightarrow> world \<Rightarrow> nid \<Rightarrow> attributes \<Rightarrow> string list \<Rightarrow> world \<times> attributes" where
  "clear_keys loc w n a [] = (w, a)"
| "clear_keys loc w n a (key # keys) =
     (let (w1, a1) = delete_present loc w n a key in clear_keys loc w1 n a1 keys)"

definition attrs_clear ::
  "ldap_env \<Rightarrow> attrs_loc \<Rightarrow> world \<Rightarrow> nid \<Rightarrow> attributes \<Rightarrow> world \<times> attributes" where
  "attrs_clear S loc w n a =
     (if clear_notifies S then clear_keys loc w n a (remdups (map fst (items a)))
      else (put_attrs loc n (a\<lparr>items := []\<rparr>) w, a\<lparr>items := []\<rparr>))"

text \<open>
  \<open>load\<close>, in the order of the source: the guard, \<open>clear\<close>,
  the fetch of the entry, the loop storing the attributes (\<open>load_items\<close>), and the
  unsetting of the markers (\<open>load_unset\<close>).
\<close>

fun load_items ::
  "ldap_env \<Rightarrow> attrs_loc \<Rightarrow> world \<Rightarrow> nid \<Rightarrow> attributes \<Rightarrow> (string \<times> string list) list
     \<Rightarrow> world \<times> attributes" where
  "load_items S loc w n a [] = (w, a)"
| "load_items S loc w n a ((key, item) # rest) =
     (let (w1, a1) =
            (if length item = 1 \<and> \<not> is_multivalued S key
             then attrs_setitem S loc w n a key (Str (hd item))
             else attrs_setitem S loc w n a key (PyList (map Str item)))
      in load_items S loc w1 n a1 rest)"

definition load_unset ::
  "attrs_loc \<Rightarrow> world \<Rightarrow> nid \<Rightarrow> attributes \<Rightarrow> (py_error + unit) \<times> world \<times> attributes" where
  "load_unset loc w n a =
     (let a1 = a\<lparr>attrs_changed := Some False\<rparr>;
          w1 = put_attrs loc n a1 w;
          nd = heap w1 ! n
      in if pending_add_or_delete nd then (Inr (), w1, a1)
         else
           (case (case parent nd of
                    None \<Rightarrow> Inr w1
                  | Some p \<Rightarrow>
                      (case set_remove (name nd) (modified_children (heap w1 ! p)) of
                         Inl e \<Rightarrow> Inl e
                       | Inr s \<Rightarrow> Inr (update_node p (\<lambda>pn. pn\<lparr>modified_children := s\<rparr>) w1))) of
              Inl e \<Rightarrow> (Inl e, w1, a1)
            | Inr w2 \<Rightarrow>
                (let w3 = update_node n (\<lambda>nd. nd\<lparr>action := None\<rparr>) w2;
                     (r, h4) = set_changed (heap w3) n False
                 in (r, w3\<lparr>heap := h4\<rparr>, a1))))"

text \<open>The query of \<open>load\<close>: base scope, every attribute, the reload flag of the node.\<close>

definition load_query :: "string \<Rightarrow> bool \<Rightarrow> query" where
  "load_query base force =
     \<lparr> q_filter = None, q_scope = BASE, q_baseDN = base, q_force_reload = force,
       q_attrlist = [''*''], q_page_size = None, q_cookie = None \<rparr>"

definition load ::
  "ldap_env \<Rightarrow> attrs_loc \<Rightarrow> world \<Rightarrow> nid \<Rightarrow> attributes \<Rightarrow> (py_error + unit) \<times> world \<times> attributes" where
  "load S loc w n a =
     (let ldap_node = heap w ! n in
      if \<not> truthy (name ldap_node) \<or> \<not> ldap_session ldap_node
           \<or> action ldap_node = Some ACTION_ADD
      then (Inr (), w, a)
      else
        (let (w1, a1) = attrs_clear S loc w n a
         in case DN (heap w1) n of
              Inl e \<Rightarrow> (Inl e, w1, a1)
            | Inr base \<Rightarrow>
                (case session_search S w1 (load_query base (reload (heap w1 ! n))) of
                   (Inl e, w2) \<Rightarrow> (Inl e, w2, a1)
                 | (Inr (entry, cookie), w2) \<Rightarrow>
                     (if length entry \<noteq> 1 then (Inl RuntimeError, w2, a1)
                      else
                        (let (w3, a3) = load_items S loc w2 n a1 (snd (hd entry))
                         in load_unset loc w3 n a3)))))"

text \<open>
  The \<open>attrs\<close> property of a node: the registered container, created on first access.
  Creation runs \<open>load\<close> on the new container before it is registered.
\<close>

definition empty_attributes :: attributes where
  "empty_attributes = \<lparr> items = [], attrs_changed = None \<rparr>"

definition attributes_factory ::
  "ldap_env \<Rightarrow> world \<Rightarrow> nid \<Rightarrow> (py_error + attributes) \<times> world" where
  "attributes_factory S w n =
     (case load S Detached w n empty_attributes of
        (Inl e, w1, a1) \<Rightarrow> (Inl e, w1)
      | (Inr u, w1, a1) \<Rightarrow> (Inr a1, w1))"

definition attrs :: "ldap_env \<Rightarrow> world \<Rightarrow> nid \<Rightarrow> (py_error + attributes) \<times> world" where
  "attrs S w n =
     (case attrs_ns (heap w ! n) of
        Some a \<Rightarrow> (Inr a, w)
      | None \<Rightarrow>
          (case attributes_factory S w n of
             (Inl e, w1) \<Rightarrow> (Inl e, w1)
           | (Inr a, w1) \<Rightarrow> (Inr a, update_node n (\<lambda>nd. nd\<lparr>attrs_ns := Some a\<rparr>) w1)))"

subsection \<open>LDAPStorage: invalidation\<close>

text \<open>\<open>invalidate\<close>; \<open>key\<close> is \<open>None\<close> when the argument is left out.\<close>

definition invalidate ::
  "ldap_env \<Rightarrow> world \<Rightarrow> nid \<Rightarrow> string option \<Rightarrow> (py_error + unit) \<times> world" where
  "invalidate S w n key =
     (case key of
        None \<Rightarrow>
          (if changed (heap w ! n) then (Inl RuntimeError, w)
           else
             (let w1 = update_node n (\<lambda>nd. nd\<lparr>storage := []\<rparr>) w in
              case attrs S w1 n of
                (Inl e, w2) \<Rightarrow> (Inl e, w2)
              | (Inr a, w2) \<Rightarrow>
                  (case load S Registered w2 n a of
                     (Inl e, w3, a3) \<Rightarrow> (Inl e, w3)
                   | (Inr u, w3, a3) \<Rightarrow>
                       (Inr (), update_node n (\<lambda>nd. nd\<lparr>reload := True\<rparr>) w3))))
      | Some k \<Rightarrow>
          (case map_of (storage (heap w ! n)) k of
             None \<Rightarrow> (Inr (), w)
           | Some child \<Rightarrow>
               (if changed (heap w ! child) then (Inl RuntimeError, w)
                else (Inr (),
                      update_node n (\<lambda>nd. nd\<lparr>storage := odict_del k (storage nd)\<rparr>) w))))"

subsection \<open>The conditions read by the \<open>changed\<close> setter\<close>

text \<open>What keeps the flag from being unset: changed attributes or a staged child.\<close>

definition staged :: "node \<Rightarrow> bool" where
  "staged nd = (added_children nd \<noteq> [] \<or> modified_children nd \<noteq> []
      \<or> deleted_children nd \<noteq> [])"

definition has_pending :: "node \<Rightarrow> bool" where
  "has_pending nd = (attrs_are_changed nd \<or> staged nd)"

text \<open>The invariant of the data model, for one node.\<close>

definition changed_inv :: "node \<Rightarrow> bool" where
  "changed_inv nd = (has_pending nd \<longrightarrow> changed nd)"

text \<open>The setter stores \<open>v\<close> in node \<open>n\<close>: the new state differs and is not refused.\<close>

definition stores :: "heap \<Rightarrow> nid \<Rightarrow> bool \<Rightarrow> bool" where
  "stores h n v =
     (n < length h \<and> v \<noteq> changed (h ! n)
      \<and> (v \<or> \<not> has_pending (h ! n) \<and> attrs_flag (h ! n) \<noteq> Inl AttributeError))"

text \<open>
  The unsetting of the flag of node \<open>n\<close> raises at this node: the flag is set, no child
  is staged, and the registered container has no flag to read.
\<close>

definition unset_raises :: "heap \<Rightarrow> nid \<Rightarrow> bool" where
  "unset_raises h n =
     (n < length h \<and> changed (h ! n) \<and> \<not> staged (h ! n)
      \<and> attrs_flag (h ! n) = Inl AttributeError)"

text \<open>The store that the setter leaves.\<close>

abbreviation flags_after :: "heap \<Rightarrow> nid \<Rightarrow> bool \<Rightarrow> heap" where
  "flags_after h n v \<equiv> snd (set_changed h n v)"

subsection \<open>Frames\<close>

text \<open>
  The fields of a node that no operation on attributes writes, and the heaps that agree
  on them.
\<close>

definition node_frame :: "node \<Rightarrow> node \<Rightarrow> bool" where
  "node_frame nd nd' =
     (name nd' = name nd \<and> parent nd' = parent nd \<and> dn nd' = dn nd
      \<and> ldap_session nd' = ldap_session nd \<and> added_children nd' = added_children nd
      \<and> deleted_children nd' = deleted_children nd \<and> storage nd' = storage nd
      \<and> reload nd' = reload nd \<and> key_attr nd' = key_attr nd
      \<and> search_scope nd' = search_scope nd)"

definition heap_frame :: "heap \<Rightarrow> heap \<Rightarrow> bool" where
  "heap_frame h h' = (length h' = length h \<and> (\<forall>k. node_frame (h ! k) (h' ! k)))"

text \<open>
  The world in which the loop of \<open>load\<close> starts: the container is cleared and the
  fetch is recorded.
\<close>

definition fetched ::
  "ldap_env \<Rightarrow> attrs_loc \<Rightarrow> world \<Rightarrow> nid \<Rightarrow> attributes \<Rightarrow> string \<Rightarrow> world" where
  "fetched S loc w n a base =
     (fst (attrs_clear S loc w n a))
       \<lparr>calls := calls w @ [Search (load_query base (reload (heap w ! n)))]\<rparr>"

text \<open>
  The store in which \<open>load\<close> calls the setter of the node at its end, when the removal
  from the parent has gone through: the flag of the container is unset, the key is
  removed from the modified children of the parent, and the pending action is cleared.
\<close>

definition unmarked :: "attrs_loc \<Rightarrow> world \<Rightarrow> nid \<Rightarrow> attributes \<Rightarrow> heap" where
  "unmarked loc w n a =
     (let w1 = put_attrs loc n (a\<lparr>attrs_changed := Some False\<rparr>) w;
          w2 = (case parent (heap w1 ! n) of
                  None \<Rightarrow> w1
                | Some p \<Rightarrow>
                    update_node p
                      (\<lambda>pn. pn\<lparr>modified_children :=
                                  removeAll (name (heap w1 ! n)) (modified_children pn)\<rparr>) w1)
      in heap (update_node n (\<lambda>nd. nd\<lparr>action := None\<rparr>) w2))"

subsection \<open>LDAPStorage: lookup of a child\<close>

text \<open>The existence probe of \<open>__getitem__\<close> and \<open>__setitem__\<close>: base scope, no attributes.\<close>

definition probe_query :: "string \<Rightarrow> query" where
  "probe_query base =
     \<lparr> q_filter = None, q_scope = BASE, q_baseDN = base, q_force_reload = False,
       q_attrlist = [[]], q_page_size = None, q_cookie = None \<rparr>"

text \<open>
  \<open>__getitem__\<close>. The key is a text, or \<open>None\<close> (the elements of the key sets are passed
  in by \<open>__call__\<close>). A child that is not cached is created by the child factory; the new
  node gets its address when it is stored in the cache, since in every failing case the
  object is dropped. Its DN is \<open>child_dn\<close> of this node for the key. A call of a method
  of the session of a node that has none raises \<open>AttributeError\<close>, here and below, before
  the arguments of the call are evaluated.
\<close>

definition getitem ::
  "ldap_env \<Rightarrow> world \<Rightarrow> nid \<Rightarrow> string option \<Rightarrow> (py_error + nid) \<times> world" where
  "getitem S w n key =
     (case (case key of None \<Rightarrow> None | Some k \<Rightarrow> map_of (storage (heap w ! n)) k) of
        Some c \<Rightarrow> (Inr c, w)
      | None \<Rightarrow>
          (if \<not> ldap_session (heap w ! n) then (Inl AttributeError, w)
           else case child_dn (heap w ! n) key of
             Inl e \<Rightarrow> (Inl e, w)
           | Inr base \<Rightarrow>
               (case session_search S w (probe_query base) of
                  (Inl e, w1) \<Rightarrow>
                    (if e = NO_SUCH_OBJECT \<or> e = INVALID_DN_SYNTAX then (Inl KeyError, w1)
                     else (Inl e, w1))
                | (Inr (res, cookie), w1) \<Rightarrow>
                    (case res of
                       [] \<Rightarrow> (Inl IndexError, w1)
                     | (d, eattrs) # others \<Rightarrow>
                         (let c = length (heap w1);
                              val = new_node\<lparr>name := key, parent := Some n, dn := Some d,
                                             ldap_session := ldap_session (heap w1 ! n)\<rparr>;
                              w2 = w1\<lparr>heap := heap w1 @ [val]\<rparr>
                          in (Inr c,
                              update_node n
                                (\<lambda>nd. nd\<lparr>storage := odict_set (the key) c (storage nd)\<rparr>) w2))))))"

text \<open>
  \<open>__delitem__\<close>: the child is marked, not deleted. The flag of the child is set, which
  raises nothing.
\<close>

definition delitem ::
  "ldap_env \<Rightarrow> world \<Rightarrow> nid \<Rightarrow> string \<Rightarrow> (py_error + unit) \<times> world" where
  "delitem S w n key =
     (case getitem S w n (Some key) of
        (Inl e, w1) \<Rightarrow> (Inl e, w1)
      | (Inr val, w1) \<Rightarrow>
          (let w2 = update_node val (\<lambda>nd. nd\<lparr>action := Some ACTION_DELETE\<rparr>) w1;
               w3 = w2\<lparr>heap := snd (set_changed (heap w2) val True)\<rparr>
           in (Inr (),
               update_node n
                 (\<lambda>nd. nd\<lparr>deleted_children := set_add (Some key) (deleted_children nd)\<rparr>) w3)))"

subsection \<open>LDAPStorage: search\<close>

text \<open>
  The arguments of \<open>search\<close>. \<open>sa_filter\<close> stands for the arguments from which the filter
  is built (\<open>queryFilter\<close>, \<open>criteria\<close>, \<open>relation\<close>, \<open>relation_node\<close>, \<open>or_search\<close>,
  \<open>or_keys\<close>, \<open>or_values\<close>): they are used by \<open>render_filter\<close> only.
\<close>

record search_args =
  sa_filter :: string
  sa_attrlist :: "string list option"
  sa_exact_match :: bool
  sa_page_size :: "nat option"
  sa_cookie :: "string option"

text \<open>An element of the result: the key alone, or the key with the requested attributes.\<close>

datatype res_item = ResKey string | ResEntry string "(string \<times> pyval) list"

definition res_key :: "res_item \<Rightarrow> string" where
  "res_key r = (case r of ResKey k \<Rightarrow> k | ResEntry k ra \<Rightarrow> k)"

text \<open>\<open>_calculate_key\<close>\<close>

definition calculate_key ::
  "ldap_env \<Rightarrow> node \<Rightarrow> string \<Rightarrow> (string \<times> string list) list \<Rightarrow> py_error + string" where
  "calculate_key S nd d eattrs =
     (if key_attr nd = ''rdn'' then
        (case explode_dn S d of [] \<Rightarrow> Inl IndexError | k # rest \<Rightarrow> Inr k)
      else
        (case map_of eattrs (key_attr nd) of
           None \<Rightarrow> Inl KeyError
         | Some key \<Rightarrow> (if length key \<noteq> 1 then Inl KeyError else Inr (hd key))))"

text \<open>
  The attribute dictionary of one match: the requested attributes, decoded unless binary.
  \<open>self.attrs.is_binary\<close> reads the attributes of the node, which creates them on first
  access.
\<close>

fun result_attrs ::
  "ldap_env \<Rightarrow> world \<Rightarrow> nid \<Rightarrow> string list \<Rightarrow> (string \<times> string list) list
     \<Rightarrow> (string \<times> pyval) list \<Rightarrow> (py_error + (string \<times> pyval) list) \<times> world" where
  "result_attrs S w n attrlist [] resattr = (Inr resattr, w)"
| "result_attrs S w n attrlist ((k, v) # rest) resattr =
     (if k \<in> set attrlist then
        (case attrs S w n of
           (Inl e, w1) \<Rightarrow> (Inl e, w1)
         | (Inr a, w1) \<Rightarrow>
             result_attrs S w1 n attrlist rest
               (odict_set k (if is_binary S k then PyList (map Str v)
                             else decode (PyList (map Str v))) resattr))
      else result_attrs S w n attrlist rest resattr)"

fun result_items ::
  "ldap_env \<Rightarrow> world \<Rightarrow> nid \<Rightarrow> string list option \<Rightarrow> entry list
     \<Rightarrow> (py_error + res_item list) \<times> world" where
  "result_items S w n attrlist [] = (Inr [], w)"
| "result_items S w n attrlist ((d, eattrs) # matches) =
     (case calculate_key S (heap w ! n) d eattrs of
        Inl e \<Rightarrow> (Inl e, w)
      | Inr key \<Rightarrow>
          (case attrlist of
             None \<Rightarrow>
               (case result_items S w n attrlist matches of
                  (Inl e, w2) \<Rightarrow> (Inl e, w2)
                | (Inr res, w2) \<Rightarrow> (Inr (ResKey key # res), w2))
           | Some al \<Rightarrow>
               (case result_attrs S w n al eattrs [] of
                  (Inl e, w1) \<Rightarrow> (Inl e, w1)
                | (Inr resattr, w1) \<Rightarrow>
                    (let resattr' = (if ''dn'' \<in> set al
                                     then odict_set ''dn'' (Unicode d) resattr else resattr)
                     in case result_items S w1 n attrlist matches of
                          (Inl e, w2) \<Rightarrow> (Inl e, w2)
                        | (Inr res, w2) \<Rightarrow> (Inr (ResEntry key resattr' # res), w2)))))"

text \<open>The attribute set passed to the session: without \<open>dn\<close>, with the key attribute.\<close>

definition search_attrset :: "node \<Rightarrow> string list option \<Rightarrow> string list" where
  "search_attrset nd attrlist =
     (let attrset = remdups (filter (\<lambda>a. a \<noteq> ''dn'') (case attrlist of None \<Rightarrow> [] | Some al \<Rightarrow> al))
      in if \<not> key_attr nd = ''rdn'' then List.insert (key_attr nd) attrset else attrset)"

text \<open>The query that \<open>search\<close> passes to the session.\<close>

definition search_query :: "ldap_env \<Rightarrow> node \<Rightarrow> string \<Rightarrow> search_args \<Rightarrow> query" where
  "search_query S nd base args =
     \<lparr> q_filter = Some (render_filter S nd (sa_filter args)), q_scope = search_scope nd,
       q_baseDN = base, q_force_reload = reload nd,
       q_attrlist = search_attrset nd (sa_attrlist args),
       q_page_size = sa_page_size args, q_cookie = sa_cookie args \<rparr>"

text \<open>
  \<open>search\<close>. The reply of the session is a pair exactly when a page size was given, and
  then its cookie replaces the one passed in. The result is the list, paired with the
  cookie when there is one (\<open>None\<close>: the list alone is returned).
\<close>

definition search ::
  "ldap_env \<Rightarrow> world \<Rightarrow> nid \<Rightarrow> search_args
     \<Rightarrow> (py_error + (res_item list \<times> string option)) \<times> world" where
  "search S w n args =
     (if \<not> ldap_session (heap w ! n) then (Inl AttributeError, w)
      else case DN (heap w) n of
        Inl e \<Rightarrow> (Inl e, w)
      | Inr base \<Rightarrow>
          (case session_search S w (search_query S (heap w ! n) base args) of
             (Inl e, w1) \<Rightarrow> (Inl e, w1)
           | (Inr (matches, reply_cookie), w1) \<Rightarrow>
               (let cookie = (if sa_page_size args = None then sa_cookie args
                              else reply_cookie)
                in if sa_exact_match args \<and> length matches > 1 then (Inl ValueError, w1)
                   else if sa_exact_match args \<and> length matches = 0 then (Inl ValueError, w1)
                   else
                     (case result_items S w1 n (sa_attrlist args) matches of
                        (Inl e, w2) \<Rightarrow> (Inl e, w2)
                      | (Inr res, w2) \<Rightarrow> (Inr (res, cookie), w2)))))"

subsection \<open>LDAPStorage: iteration\<close>

text \<open>
  \<open>__iter__\<close>, as the list of the keys that the generator yields when it is run to its
  end without a change of the node in between.
\<close>

definition iter_args :: search_args where
  "iter_args = \<lparr> sa_filter = [], sa_attrlist = Some [''dn''], sa_exact_match = False,
                 sa_page_size = None, sa_cookie = None \<rparr>"

definition iter ::
  "ldap_env \<Rightarrow> world \<Rightarrow> nid \<Rightarrow> (py_error + string option list) \<times> world" where
  "iter S w n =
     (if name (heap w ! n) = None then (Inr [], w)
      else
        (case (case search S w n iter_args of
                 (Inl e, w1) \<Rightarrow> (if e = NO_SUCH_OBJECT then (Inr [], w1) else (Inl e, w1))
               | (Inr (res, cookie), w1) \<Rightarrow> (Inr res, w1)) of
           (Inl e, w1) \<Rightarrow> (Inl e, w1)
         | (Inr res, w1) \<Rightarrow>
             (Inr (filter (\<lambda>key. key \<notin> set (deleted_children (heap w1 ! n)))
                     (map (\<lambda>r. Some (res_key r)) res)
                   @ added_children (heap w1 ! n)),
              w1)))"

subsection \<open>LDAPStorage: writing to the directory\<close>

text \<open>The value passed to the directory: encoded unless the attribute is binary.\<close>

definition wire_value :: "ldap_env \<Rightarrow> string \<Rightarrow> pyval \<Rightarrow> pyval" where
  "wire_value S key v = (if \<not> is_binary S key then encode v else v)"

text \<open>\<open>_ldap_add\<close>\<close>

definition ldap_add :: "ldap_env \<Rightarrow> world \<Rightarrow> nid \<Rightarrow> (py_error + unit) \<times> world" where
  "ldap_add S w n =
     (case attrs S w n of
        (Inl e, w1) \<Rightarrow> (Inl e, w1)
      | (Inr a, w1) \<Rightarrow>
          (if \<not> ldap_session (heap w1 ! n) then (Inl AttributeError, w1)
           else case DN (heap w1) n of
             Inl e \<Rightarrow> (Inl e, w1)
           | Inr d \<Rightarrow>
               (Inr (),
                session_call w1 (Add d (map (\<lambda>(key, v). (key, wire_value S key v)) (items a))))))"

text \<open>
  The modify list of \<open>_ldap_modify\<close>, from the items of the snapshot \<open>orgin\<close> and of the
  live attributes: the first loop gives the deletions, the second the additions and
  replacements.
\<close>

definition mod_deletes ::
  "(string \<times> pyval) list \<Rightarrow> (string \<times> pyval) list \<Rightarrow> (modop \<times> string \<times> pyval option) list" where
  "mod_deletes orgin live =
     map (\<lambda>key. (MOD_DELETE, key, None))
       (filter (\<lambda>key. key \<notin> fst ` set live) (map fst orgin))"

fun mod_changes ::
  "ldap_env \<Rightarrow> (string \<times> pyval) list \<Rightarrow> (string \<times> pyval) list
     \<Rightarrow> (modop \<times> string \<times> pyval option) list" where
  "mod_changes S orgin [] = []"
| "mod_changes S orgin ((key, v) # rest) =
     (case map_of orgin key of
        None \<Rightarrow> (MOD_ADD, key, Some (wire_value S key v)) # mod_changes S orgin rest
      | Some ov \<Rightarrow>
          (if \<not> py_eq v ov
           then (MOD_REPLACE, key, Some (wire_value S key v)) # mod_changes S orgin rest
           else mod_changes S orgin rest))"

definition modlist_of ::
  "ldap_env \<Rightarrow> (string \<times> pyval) list \<Rightarrow> (string \<times> pyval) list
     \<Rightarrow> (modop \<times> string \<times> pyval option) list" where
  "modlist_of S orgin live = mod_deletes orgin live @ mod_changes S orgin live"

text \<open>
  \<open>_ldap_modify\<close>: the snapshot is a new attribute container of this node, which loads
  itself from the directory when it is made.
\<close>

definition ldap_modify :: "ldap_env \<Rightarrow> world \<Rightarrow> nid \<Rightarrow> (py_error + unit) \<times> world" where
  "ldap_modify S w n =
     (case attributes_factory S w n of
        (Inl e, w1) \<Rightarrow> (Inl e, w1)
      | (Inr orgin, w1) \<Rightarrow>
          (case attrs S w1 n of
             (Inl e, w2) \<Rightarrow> (Inl e, w2)
           | (Inr live, w2) \<Rightarrow>
               (let modlist = modlist_of S (items orgin) (items live)
                in if modlist \<noteq> [] then
                     (if \<not> ldap_session (heap w2 ! n) then (Inl AttributeError, w2)
                      else case DN (heap w2) n of
                        Inl e \<Rightarrow> (Inl e, w2)
                      | Inr d \<Rightarrow> (Inr (), session_call w2 (Modify d modlist)))
                   else (Inr (), w2))))"

text \<open>\<open>_ldap_delete\<close>; a node without a parent has no \<open>storage\<close> to delete from.\<close>

definition ldap_delete :: "ldap_env \<Rightarrow> world \<Rightarrow> nid \<Rightarrow> (py_error + unit) \<times> world" where
  "ldap_delete S w n =
     (case parent (heap w ! n) of
        None \<Rightarrow> (Inl AttributeError, w)
      | Some p \<Rightarrow>
          (case (case name (heap w ! n) of
                   None \<Rightarrow> None | Some k \<Rightarrow> map_of (storage (heap w ! p)) k) of
             None \<Rightarrow> (Inl KeyError, w)
           | Some c \<Rightarrow>
               (let w1 = update_node p
                           (\<lambda>pn. pn\<lparr>storage := odict_del (the (name (heap w ! n))) (storage pn)\<rparr>) w
                in if \<not> ldap_session (heap w1 ! n) then (Inl AttributeError, w1)
                   else case DN (heap w1) n of
                     Inl e \<Rightarrow> (Inl e, w1)
                   | Inr d \<Rightarrow> (Inr (), session_call w1 (Delete d)))))"

subsection \<open>LDAPStorage: commit\<close>

text \<open>
  The first part of \<open>__call__\<close>: the pending action of the node itself. The removal from
  the key set of the parent raises \<open>AttributeError\<close> when there is no parent.
\<close>

definition remove_from_parent ::
  "(node \<Rightarrow> key_set) \<Rightarrow> (key_set \<Rightarrow> node \<Rightarrow> node) \<Rightarrow> world \<Rightarrow> nid \<Rightarrow> py_error + world" where
  "remove_from_parent get put w n =
     (case parent (heap w ! n) of
        None \<Rightarrow> Inl AttributeError
      | Some p \<Rightarrow>
          (case set_remove (name (heap w ! n)) (get (heap w ! p)) of
             Inl e \<Rightarrow> Inl e
           | Inr s \<Rightarrow> Inr (update_node p (put s) w)))"

definition call_action ::
  "ldap_env \<Rightarrow> world \<Rightarrow> nid \<Rightarrow> action \<Rightarrow> (py_error + unit) \<times> world" where
  "call_action S w n act =
     (case act of
        ACTION_ADD \<Rightarrow>
          (case remove_from_parent added_children (\<lambda>s nd. nd\<lparr>added_children := s\<rparr>) w n of
             Inl e \<Rightarrow> (Inl e, w)
           | Inr w1 \<Rightarrow> ldap_add S w1 n)
      | ACTION_MODIFY \<Rightarrow>
          (case parent (heap w ! n) of
             None \<Rightarrow> ldap_modify S w n
           | Some p \<Rightarrow>
               (case remove_from_parent modified_children
                       (\<lambda>s nd. nd\<lparr>modified_children := s\<rparr>) w n of
                  Inl e \<Rightarrow> (Inl e, w)
                | Inr w1 \<Rightarrow> ldap_modify S w1 n))
      | ACTION_DELETE \<Rightarrow>
          (case remove_from_parent deleted_children
                  (\<lambda>s nd. nd\<lparr>deleted_children := s\<rparr>) w n of
             Inl e \<Rightarrow> (Inl e, w)
           | Inr w1 \<Rightarrow> ldap_delete S w1 n))"

definition call_self :: "ldap_env \<Rightarrow> world \<Rightarrow> nid \<Rightarrow> (py_error + unit) \<times> world" where
  "call_self S w n =
     (if changed (heap w ! n) \<and> action (heap w ! n) \<noteq> None then
        (case call_action S w n (the (action (heap w ! n))) of
           (Inl e, w1) \<Rightarrow> (Inl e, w1)
         | (Inr u, w1) \<Rightarrow>
             (let w2 = update_node n
                         (\<lambda>nd. nd\<lparr>attrs_ns := map_option (\<lambda>a. a\<lparr>attrs_changed := Some False\<rparr>)
                                                  (attrs_ns nd)\<rparr>) w1
              in case set_changed (heap w2) n False of
                   (Inl e, h3) \<Rightarrow> (Inl e, w2\<lparr>heap := h3\<rparr>)
                 | (Inr u', h3) \<Rightarrow>
                     (Inr (), update_node n (\<lambda>nd. nd\<lparr>action := None\<rparr>) (w2\<lparr>heap := h3\<rparr>))))
      else (Inr (), w))"

text \<open>\<open>[self[key] for key in self._deleted_children]\<close>\<close>

fun deleted_nodes ::
  "ldap_env \<Rightarrow> world \<Rightarrow> nid \<Rightarrow> string option list \<Rightarrow> (py_error + nid list) \<times> world" where
  "deleted_nodes S w n [] = (Inr [], w)"
| "deleted_nodes S w n (key # keys) =
     (case getitem S w n key of
        (Inl e, w1) \<Rightarrow> (Inl e, w1)
      | (Inr c, w1) \<Rightarrow>
          (case deleted_nodes S w1 n keys of
             (Inl e, w2) \<Rightarrow> (Inl e, w2)
           | (Inr cs, w2) \<Rightarrow> (Inr (c # cs), w2)))"

text \<open>
  \<open>__call__\<close>. The call on a child is the recursion, which the first argument bounds:
  \<open>None\<close> is a run that needs more nested calls than that. \<open>call_nodes\<close> is the loop
  over the cached children and the nodes to delete.
\<close>

fun call :: "nat \<Rightarrow> ldap_env \<Rightarrow> world \<Rightarrow> nid \<Rightarrow> ((py_error + unit) \<times> world) option"
  and call_nodes ::
    "nat \<Rightarrow> ldap_env \<Rightarrow> world \<Rightarrow> nid list \<Rightarrow> ((py_error + unit) \<times> world) option" where
  "call 0 S w n = None"
| "call (Suc fuel) S w n =
     (case call_self S w n of
        (Inl e, w1) \<Rightarrow> Some (Inl e, w1)
      | (Inr u, w1) \<Rightarrow>
          (case deleted_nodes S w1 n (deleted_children (heap w1 ! n)) of
             (Inl e, w2) \<Rightarrow> Some (Inl e, w2)
           | (Inr deleted, w2) \<Rightarrow>
               call_nodes fuel S w2 (map snd (storage (heap w2 ! n)) @ deleted)))"
| "call_nodes fuel S w [] = Some (Inr (), w)"
| "call_nodes fuel S w (m # ms) =
     (if changed (heap w ! m) then
        (case call fuel S w m of
           None \<Rightarrow> None
         | Some (Inl e, w1) \<Rightarrow> Some (Inl e, w1)
         | Some (Inr u, w1) \<Rightarrow> call_nodes fuel S w1 ms)
      else call_nodes fuel S w ms)"

subsection \<open>Invariants of the commit\<close>

text \<open>
  \<open>storage_wf\<close>: the child caches hold addresses of nodes. \<open>stale_added p k\<close>: the key \<open>k\<close>
  is in the added children of \<open>p\<close> and no node named \<open>k\<close> under \<open>p\<close> is pending Add.
  \<open>keeps\<close> relates a heap to a later one that has the same names, parents and added
  children, no node newly pending Add, and possibly more nodes.
\<close>

definition no_new_add :: "heap \<Rightarrow> heap \<Rightarrow> bool" where
  "no_new_add h h' = (\<forall>m. action (h' ! m) = Some ACTION_ADD \<longrightarrow> action (h ! m) = Some ACTION_ADD)"

definition storage_wf :: "heap \<Rightarrow> bool" where
  "storage_wf h = (\<forall>m < length h. \<forall>c \<in> snd ` set (storage (h ! m)). c < length h)"

definition stale_added :: "nid \<Rightarrow> string \<Rightarrow> heap \<Rightarrow> bool" where
  "stale_added p k h =
     (p < length h \<and> Some k \<in> set (added_children (h ! p))
      \<and> (\<forall>m < length h. parent (h ! m) = Some p \<and> name (h ! m) = Some k
            \<longrightarrow> action (h ! m) \<noteq> Some ACTION_ADD))"

definition keeps :: "heap \<Rightarrow> heap \<Rightarrow> bool" where
  "keeps h h' =
     (length h \<le> length h' \<and> (storage_wf h \<longrightarrow> storage_wf h')
      \<and> (\<forall>m < length h. name (h' ! m) = name (h ! m) \<and> parent (h' ! m) = parent (h ! m)
            \<and> added_children (h' ! m) = added_children (h ! m)
            \<and> (action (h' ! m) = Some ACTION_ADD \<longrightarrow> action (h ! m) = Some ACTION_ADD))
      \<and> (\<forall>m. length h \<le> m \<and> m < length h' \<longrightarrow> action (h' ! m) \<noteq> Some ACTION_ADD))"

definition commit_inv :: "nid \<Rightarrow> string \<Rightarrow> heap \<Rightarrow> bool" where
  "commit_inv p k h = (storage_wf h \<and> stale_added p k h)"

definition carried :: "nid \<Rightarrow> string \<Rightarrow> world \<Rightarrow> world \<Rightarrow> bool" where
  "carried p k w w' = (commit_inv p k (heap w') \<and> length (heap w) \<le> length (heap w'))"

section \<open>Example directories and trees\<close>

text \<open>Concrete inputs, on which the properties below are exercised.\<close>

definition example_population :: "string \<Rightarrow> result_item list" where
  "example_population a =
     [(''uid=b'', [(a, [''103''])]), (''uid=a'', [(a, [''100''])]), (''uid=c'', [(a, [''107''])])]"

text \<open>
  A tree of two nodes: the root, and under it the entry \<open>cn=a\<close>, which has one staged
  child \<open>cn=b\<close> of its own.
\<close>

definition staged_heap :: heap where
  "staged_heap =
     [new_node\<lparr>name := Some ''dc=x'', ldap_session := True, changed := True,
               storage := [(''cn=a'', 1)]\<rparr>,
      new_node\<lparr>name := Some ''cn=a'', parent := Some 0, dn := Some ''cn=a,dc=x'',
               ldap_session := True, changed := True,
               added_children := [Some ''cn=b'']\<rparr>]"

text \<open>
  A directory with the entry \<open>dc=x\<close> and below it the entry \<open>cn=a\<close>, and a tree over
  it in which the child \<open>cn=a\<close> carries an attribute edit made before it was put under
  the root (the root is unchanged, the child is pending Modify).
\<close>

definition example_env :: ldap_env where
  "example_env =
     \<lparr> ldap_search = (\<lambda>cs q.
         if q_baseDN q = ''cn=a,dc=x'' then Inr ([(''cn=a,dc=x'', [(''cn'', [''a''])])], None)
         else if q_baseDN q = ''dc=x'' \<and> q_scope q = BASE then Inr ([(''dc=x'', [])], None)
         else if q_baseDN q = ''dc=x'' then Inr ([(''cn=a,dc=x'', [])], None)
         else Inl NO_SUCH_OBJECT),
       render_filter = (\<lambda>nd f. f),
       explode_dn = (\<lambda>d. [takeWhile (\<lambda>c. c \<noteq> CHR '','') d]),
       binary_attributes = [], multivalued_attributes = [], clear_notifies = True \<rparr>"

definition modified_child_world :: world where
  "modified_child_world =
     \<lparr> heap =
         [new_node\<lparr>name := Some ''dc=x'', ldap_session := True, storage := [(''cn=a'', 1)]\<rparr>,
          new_node\<lparr>name := Some ''cn=a'', parent := Some 0, dn := Some ''cn=a,dc=x'',
                   ldap_session := True, changed := True, action := Some ACTION_MODIFY,
                   attrs_ns := Some \<lparr>items = [(''sn'', Unicode ''x''), (''cn'', Unicode ''a'')],
                                     attrs_changed = Some True\<rparr>\<rparr>],
       calls = [] \<rparr>"

text \<open>
  Example trees over the directory above: \<open>clean_world\<close> holds the root and the freshly
  looked-up child \<open>cn=a\<close>; in \<open>staged_world\<close> that child has a staged child of its own.
  \<open>bare_env\<close> is a directory whose entries carry no attributes.
\<close>

definition clean_world :: world where
  "clean_world =
     \<lparr> heap =
         [new_node\<lparr>name := Some ''dc=x'', ldap_session := True, storage := [(''cn=a'', 1)]\<rparr>,
          new_node\<lparr>name := Some ''cn=a'', parent := Some 0, dn := Some ''cn=a,dc=x'',
                   ldap_session := True\<rparr>],
       calls = [] \<rparr>"

definition staged_world :: world where
  "staged_world = \<lparr> heap = staged_heap, calls = [] \<rparr>"

definition bare_env :: ldap_env where
  "bare_env = example_env\<lparr>ldap_search := (\<lambda>cs q. Inr ([(q_baseDN q, [])], None))\<rparr>"

definition empty_env :: ldap_env where
  "empty_env = example_env\<lparr>ldap_search := (\<lambda>cs q. Inr ([], None))\<rparr>"

definition crowded_env :: ldap_env where
  "crowded_env = example_env\<lparr>ldap_search :=
     (\<lambda>cs q. Inr ([(''cn=a,dc=x'', []), (''cn=b,dc=x'', [])], None))\<rparr>"

definition exact_args :: search_args where
  "exact_args = \<lparr> sa_filter = ''(cn=a)'', sa_attrlist = None, sa_exact_match = True,
                  sa_page_size = None, sa_cookie = None \<rparr>"

definition listing_env :: ldap_env where
  "listing_env = example_env\<lparr>ldap_search :=
     (\<lambda>cs q. Inr ([(''cn=a,dc=x'', []), (''cn=b,dc=x'', []), (''cn=c,dc=x'', [])], None))\<rparr>"

definition unsaved_env :: ldap_env where
  "unsaved_env = example_env\<lparr>ldap_search := (\<lambda>cs q. Inl NO_SUCH_OBJECT)\<rparr>"

definition iter_world :: world where
  "iter_world =
     \<lparr> heap = [new_node\<lparr>name := Some ''dc=x'', ldap_session := True, changed := True,
                         deleted_children := [Some ''cn=b''],
                         added_children := [Some ''cn=d'']\<rparr>,
                new_node],
       calls = [] \<rparr>"

definition modify_env :: ldap_env where
  "modify_env = example_env\<lparr>ldap_search :=
     (\<lambda>cs q. Inr ([(q_baseDN q, [(''cn'', [''a'']), (''sn'', [''old'']), (''title'', [''t''])])],
                   None)),
     binary_attributes := [''jpegPhoto'']\<rparr>"

definition edited_attrs :: attributes where
  "edited_attrs =
     \<lparr> items = [(''cn'', Unicode ''a''), (''sn'', Unicode ''new''), (''mail'', Unicode ''y''),
                 (''jpegPhoto'', Str ''bytes'')],
       attrs_changed = Some True \<rparr>"

definition persisted_attrs :: attributes where
  "persisted_attrs =
     \<lparr> items = [(''cn'', Unicode ''a''), (''sn'', Unicode ''old''), (''title'', Unicode ''t'')],
       attrs_changed = Some False \<rparr>"

definition edited_world :: world where
  "edited_world =
     \<lparr> heap =
         [new_node\<lparr>name := Some ''dc=x'', ldap_session := True, changed := True,
                   storage := [(''cn=a'', 1)]\<rparr>,
          new_node\<lparr>name := Some ''cn=a'', parent := Some 0, dn := Some ''cn=a,dc=x'',
                   ldap_session := True, changed := True, action := Some ACTION_MODIFY,
                   attrs_ns := Some edited_attrs\<rparr>],
       calls = [] \<rparr>"

text \<open>A root with one cached child that is pending Add.\<close>

definition added_world :: world where
  "added_world =
     \<lparr> heap =
         [new_node\<lparr>name := Some ''dc=x'', ldap_session := True, changed := True,
                   added_children := [Some ''cn=b''], storage := [(''cn=b'', 1)]\<rparr>,
          new_node\<lparr>name := Some ''cn=b'', parent := Some 0, dn := Some ''cn=b,dc=x'',
                   ldap_session := True, changed := True, action := Some ACTION_ADD,
                   attrs_ns := Some \<lparr>items = [(''cn'', Unicode ''b'')], attrs_changed = Some True\<rparr>\<rparr>],
       calls = [] \<rparr>"

text \<open>
  The tree after an attribute of the child \<open>cn=a\<close> was edited through the root: the child
  is pending Modify, its key is in the modified children of the root, and both flags
  are set. In \<open>loaded_world\<close> the attributes of the child are loaded and nothing is
  edited. \<open>silent_env\<close> is the directory without attributes, with a \<open>clear\<close> that
  notifies nobody.
\<close>

definition pending_world :: world where
  "pending_world =
     \<lparr> heap =
         [new_node\<lparr>name := Some ''dc=x'', ldap_session := True, changed := True,
                   modified_children := [Some ''cn=a''], storage := [(''cn=a'', 1)]\<rparr>,
          new_node\<lparr>name := Some ''cn=a'', parent := Some 0, dn := Some ''cn=a,dc=x'',
                   ldap_session := True, changed := True, action := Some ACTION_MODIFY,
                   attrs_ns := Some \<lparr>items = [(''cn'', Unicode ''a''), (''sn'', Unicode ''new'')],
                                     attrs_changed = Some True\<rparr>\<rparr>],
       calls = [] \<rparr>"

definition loaded_world :: world where
  "loaded_world =
     \<lparr> heap =
         [new_node\<lparr>name := Some ''dc=x'', ldap_session := True, storage := [(''cn=a'', 1)]\<rparr>,
          new_node\<lparr>name := Some ''cn=a'', parent := Some 0, dn := Some ''cn=a,dc=x'',
                   ldap_session := True,
                   attrs_ns := Some \<lparr>items = [(''cn'', Unicode ''a'')],
                                     attrs_changed = Some False\<rparr>\<rparr>],
       calls = [] \<rparr>"

definition silent_env :: ldap_env where
  "silent_env = bare_env\<lparr>clear_notifies := False\<rparr>"

section \<open>Properties of the default-value callbacks\<close>

lemma last_sort_Max:
  fixes xs :: "int list"
  assumes "xs \<noteq> []"
  shows "last (sort xs) = Max (set xs)"
proof -
  have ne: "sort xs \<noteq> []"
    using assms by (metis set_empty set_sort)
  have bound: "\<forall>y \<in> set ys. y \<le> last ys" if "sorted ys" "ys \<noteq> []" for ys :: "int list"
    using that by (induction ys) auto
  have "\<forall>y \<in> set (sort xs). y \<le> last (sort xs)"
    using bound [of "sort xs"] ne by simp
  then show ?thesis
    using ne by (metis List.finite_set Max_eqI last_in_set set_sort)
qed

lemma sort_eq_Nil: "(sort xs = []) = (xs = ([] :: int list))"
  by (metis set_empty set_sort)

text \<open>
  Claim C8. With a node whose search returns entries carrying the numbers \<open>ns\<close>,
  \<open>uidNumber\<close> returns the text of the numeric maximum plus one (\<open>108\<close> for the values
  100, 103 and 107, in any order of the result), and \<open>100\<close> when the search returns
  nothing; \<open>gidNumber\<close> does the same over the attribute \<open>gidNumber\<close>, and without a node
  it returns the empty text and raises nothing.
\<close>

theorem posix_number_allocation:
  "(nd ''uidNumber'' = Inr existing \<and> item_numbers ''uidNumber'' existing = Inr ns \<longrightarrow>
      map_sum id fst (uidNumber tmp (Some nd) ident) =
        Inr (if ns = [] then ''100'' else py_str (Max (set ns) + 1)))
   \<and> (nd ''gidNumber'' = Inr existing \<and> item_numbers ''gidNumber'' existing = Inr ns \<longrightarrow>
      gidNumber (Some nd) ident =
        Inr (if ns = [] then ''100'' else py_str (Max (set ns) + 1)))
   \<and> gidNumber None ident = Inr []"
  by (simp add: uidNumber_def gidNumber_def Let_def sort_eq_Nil last_sort_Max)

lemma example_population_numbers:
  "item_numbers a (example_population a) = Inr [103, 100, 107]"
  by (simp add: example_population_def item_number_def py_int_def strip_def is_space_def
      digit_chars_def)

lemma py_str_108: "py_str 108 = ''108''"
  by (simp add: py_str_def nat_str.simps digit_chars_def)

theorem posix_number_allocation_witness:
  "map_sum id fst (uidNumber [] (Some (\<lambda>a. Inr (example_population a))) ''sepp'') = Inr ''108''
   \<and> gidNumber (Some (\<lambda>a. Inr (example_population a))) ''sepp'' = Inr ''108''
   \<and> map_sum id fst (uidNumber [] (Some (\<lambda>a. Inr [])) ''sepp'') = Inr ''100''
   \<and> gidNumber (Some (\<lambda>a. Inr [])) ''sepp'' = Inr ''100''
   \<and> gidNumber None ''sepp'' = Inr []"
proof -
  have full: "map_sum id fst (uidNumber [] (Some (\<lambda>a. Inr (example_population a))) ''sepp'') = Inr ''108''
      \<and> gidNumber (Some (\<lambda>a. Inr (example_population a))) ''sepp'' = Inr ''108''
      \<and> gidNumber None ''sepp'' = Inr []"
    using posix_number_allocation
      [of "\<lambda>a. Inr (example_population a)" "example_population ''uidNumber''" "[103, 100, 107]"
          "[]" "''sepp''"]
      posix_number_allocation
      [of "\<lambda>a. Inr (example_population a)" "example_population ''gidNumber''" "[103, 100, 107]"
          "[]" "''sepp''"]
    by (simp add: example_population_numbers py_str_108)
  have none: "map_sum id fst (uidNumber [] (Some (\<lambda>a. Inr [])) ''sepp'') = Inr ''100''
      \<and> gidNumber (Some (\<lambda>a. Inr [])) ''sepp'' = Inr ''100''"
    using posix_number_allocation [of "\<lambda>a. Inr []" "[]" "[]" "[]" "''sepp''"]
    by simp
  from full none show ?thesis by simp
qed

text \<open>
  Claim C9 (the code does not do this). A call of \<open>uidNumber\<close> with a node computes
  \<open>108\<close> and leaves the module global as it was; the following call without a node
  raises \<open>UnboundLocalError\<close> instead of returning \<open>108\<close>, whatever the global holds.
\<close>

theorem uidNumber_no_node_raises:
  "uidNumber uidNumber_tmp_init (Some (\<lambda>a. Inr (example_population a))) ''sepp''
      = Inr (''108'', uidNumber_tmp_init)
   \<and> uidNumber uidNumber_tmp_init None ''sepp'' = Inl UnboundLocalError
   \<and> (\<forall>tmp ident. uidNumber tmp None ident = Inl UnboundLocalError)"
  by (simp add: uidNumber_def example_population_numbers sort_eq_Nil last_sort_Max py_str_108)

section \<open>Properties of the \<open>changed\<close> setter\<close>

lemma set_changed_noop: "\<not> stores h n v \<Longrightarrow> flags_after h n v = h"
  by (subst set_changed.simps)
     (auto simp: stores_def has_pending_def staged_def attrs_are_changed_def Let_def)

lemma set_changed_step:
  "stores h n v \<Longrightarrow> set_changed h n v =
     (case parent (h ! n) of
        None \<Rightarrow> (Inr (), h[n := (h ! n)\<lparr>changed := v\<rparr>])
      | Some p \<Rightarrow> set_changed (h[n := (h ! n)\<lparr>changed := v\<rparr>]) p v)"
  by (subst set_changed.simps)
     (auto simp: stores_def has_pending_def staged_def attrs_are_changed_def Let_def
        split: option.splits)

lemma set_changed_raises:
  "unset_raises h n \<Longrightarrow> set_changed h n False = (Inl AttributeError, h)"
  by (subst set_changed.simps) (auto simp: unset_raises_def staged_def Let_def)

lemma set_changed_refused:
  "\<not> stores h n v \<Longrightarrow> v \<or> \<not> unset_raises h n \<Longrightarrow> set_changed h n v = (Inr (), h)"
  by (subst set_changed.simps)
     (auto simp: stores_def unset_raises_def has_pending_def staged_def attrs_are_changed_def
        Let_def)

lemma set_changed_cases [case_names noop root step]:
  assumes "\<And>h n v. \<not> stores h n v \<Longrightarrow> P h n v"
    and "\<And>h n v. stores h n v \<Longrightarrow> parent (h ! n) = None \<Longrightarrow> P h n v"
    and "\<And>h n v p. stores h n v \<Longrightarrow> parent (h ! n) = Some p \<Longrightarrow>
           P (h[n := (h ! n)\<lparr>changed := v\<rparr>]) p v \<Longrightarrow> P h n v"
  shows "P h n v"
proof (induction h n v rule: set_changed.induct)
  case (1 h n v)
  show ?case
  proof (cases "stores h n v")
    case False
    then show ?thesis by (rule assms(1))
  next
    case st: True
    show ?thesis
    proof (cases "parent (h ! n)")
      case None
      with st show ?thesis by (rule assms(2))
    next
      case (Some p)
      have "P (h[n := (h ! n)\<lparr>changed := v\<rparr>]) p v"
      proof (cases v)
        case True
        with st Some "1.IH"(1) [of "h ! n" "h[n := (h ! n)\<lparr>changed := True\<rparr>]" p]
        show ?thesis by (simp add: stores_def)
      next
        case False
        with st Some "1.IH"(2) [of "h ! n" "h[n := (h ! n)\<lparr>changed := False\<rparr>]" p]
        show ?thesis
          by (simp add: stores_def has_pending_def staged_def attrs_are_changed_def)
      qed
      with st Some show ?thesis by (rule assms(3))
    qed
  qed
qed

text \<open>Setting the flag raises nothing.\<close>

lemma set_changed_True_returns: "fst (set_changed h n True) = Inr ()"
proof (induction h n "True" rule: set_changed_cases)
  case (noop h n)
  then show ?case by (simp add: set_changed_refused)
next
  case (root h n)
  then show ?case by (simp add: set_changed_step)
next
  case (step h n p)
  then show ?case by (simp add: set_changed_step)
qed

lemma length_set_changed [simp]: "length (flags_after h n v) = length h"
proof (induction h n v rule: set_changed_cases)
  case (noop h n v)
  then show ?case by (simp add: set_changed_noop)
next
  case (root h n v)
  then show ?case by (simp add: set_changed_step)
next
  case (step h n v p)
  then show ?case by (simp add: set_changed_step)
qed

lemma set_changed_frame:
  "\<exists>b. flags_after h n v ! k = (h ! k)\<lparr>changed := b\<rparr>"
proof (induction h n v rule: set_changed_cases)
  case (noop h n v)
  have "h ! k = (h ! k)\<lparr>changed := changed (h ! k)\<rparr>" by simp
  then show ?case unfolding set_changed_noop [OF noop] by blast
next
  case (root h n v)
  have "h[n := (h ! n)\<lparr>changed := v\<rparr>] ! k = (h ! k)\<lparr>changed := (if k = n then v else changed (h ! k))\<rparr>"
    using root by (cases "k = n") (auto simp: stores_def)
  moreover have "flags_after h n v = h[n := (h ! n)\<lparr>changed := v\<rparr>]"
    using root by (simp add: set_changed_step)
  ultimately have "flags_after h n v ! k
      = (h ! k)\<lparr>changed := (if k = n then v else changed (h ! k))\<rparr>" by simp
  then show ?case by (rule exI)
next
  case (step h n v p)
  have upd: "h[n := (h ! n)\<lparr>changed := v\<rparr>] ! k = (h ! k)\<lparr>changed := (if k = n then v else changed (h ! k))\<rparr>"
    using step by (cases "k = n") (auto simp: stores_def)
  from step.IH obtain b where "flags_after (h[n := (h ! n)\<lparr>changed := v\<rparr>]) p v ! k
      = (h[n := (h ! n)\<lparr>changed := v\<rparr>] ! k)\<lparr>changed := b\<rparr>" by blast
  then have "flags_after h n v ! k = (h ! k)\<lparr>changed := b\<rparr>"
    using step upd by (simp add: set_changed_step)
  then show ?case by blast
qed

lemma set_changed_fields [simp]:
  "name (flags_after h n v ! k) = name (h ! k)"
  "parent (flags_after h n v ! k) = parent (h ! k)"
  "dn (flags_after h n v ! k) = dn (h ! k)"
  "ldap_session (flags_after h n v ! k) = ldap_session (h ! k)"
  "action (flags_after h n v ! k) = action (h ! k)"
  "added_children (flags_after h n v ! k) = added_children (h ! k)"
  "modified_children (flags_after h n v ! k) = modified_children (h ! k)"
  "deleted_children (flags_after h n v ! k) = deleted_children (h ! k)"
  "attrs_ns (flags_after h n v ! k) = attrs_ns (h ! k)"
  "storage (flags_after h n v ! k) = storage (h ! k)"
  "reload (flags_after h n v ! k) = reload (h ! k)"
  "key_attr (flags_after h n v ! k) = key_attr (h ! k)"
  "search_scope (flags_after h n v ! k) = search_scope (h ! k)"
  using set_changed_frame [of h n v k] by auto

lemma has_pending_update_changed [simp]:
  "has_pending (nd\<lparr>changed := b\<rparr>) = has_pending nd"
  "attrs_flag (nd\<lparr>changed := b\<rparr>) = attrs_flag nd"
  "staged (nd\<lparr>changed := b\<rparr>) = staged nd"
  by (simp_all add: has_pending_def staged_def attrs_are_changed_def attrs_flag_def)

lemma has_pending_set_changed [simp]:
  "has_pending (flags_after h n v ! k) = has_pending (h ! k)"
  "attrs_flag (flags_after h n v ! k) = attrs_flag (h ! k)"
  "staged (flags_after h n v ! k) = staged (h ! k)"
  by (simp_all add: has_pending_def staged_def attrs_are_changed_def attrs_flag_def)

lemma set_changed_keeps_or_sets:
  "changed (flags_after h n v ! k) = changed (h ! k) \<or> (changed (flags_after h n v ! k) = v \<and> (v \<or> \<not> has_pending (h ! k)))"
proof (induction h n v rule: set_changed_cases)
  case (noop h n v)
  then show ?case by (simp add: set_changed_noop)
next
  case (root h n v)
  then show ?case by (cases "k = n") (auto simp: set_changed_step stores_def)
next
  case (step h n v p)
  have upd: "h[n := (h ! n)\<lparr>changed := v\<rparr>] ! k = (h ! k)\<lparr>changed := (if k = n then v else changed (h ! k))\<rparr>"
    using step by (cases "k = n") (auto simp: stores_def)
  have hp: "has_pending (h[n := (h ! n)\<lparr>changed := v\<rparr>] ! k) = has_pending (h ! k)"
    unfolding upd by simp
  show ?case using step.IH step.hyps upd hp
    by (auto simp: set_changed_step stores_def split: if_splits)
qed

text \<open>
  The setter itself keeps the invariant of every node, refuses to unset the flag of a
  node with changed attributes or a staged child, and goes on to the parent whenever it
  changes the flag of its node.
\<close>

lemma set_changed_preserves_inv:
  assumes "changed_inv (h ! k)"
  shows "changed_inv (flags_after h n v ! k)"
  using set_changed_keeps_or_sets [of h n v k] assms
  by (auto simp: changed_inv_def)

lemma set_changed_refuses:
  assumes "has_pending (h ! n)"
  shows "set_changed h n False = (Inr (), h)"
proof -
  have "\<not> stores h n False" using assms by (simp add: stores_def)
  moreover have "\<not> unset_raises h n"
    using assms by (auto simp: unset_raises_def has_pending_def attrs_are_changed_def)
  ultimately show ?thesis by (simp add: set_changed_refused)
qed

lemma set_changed_transition:
  assumes "changed (flags_after h n v ! n) \<noteq> changed (h ! n)"
  shows "stores h n v"
proof (rule ccontr)
  assume "\<not> stores h n v"
  then have "flags_after h n v = h" by (rule set_changed_noop)
  with assms show False by simp
qed

lemma set_changed_propagates:
  assumes "changed (flags_after h n v ! n) \<noteq> changed (h ! n)"
  shows "set_changed h n v =
          (case parent (h ! n) of
             None \<Rightarrow> (Inr (), h[n := (h ! n)\<lparr>changed := v\<rparr>])
           | Some p \<Rightarrow> set_changed (h[n := (h ! n)\<lparr>changed := v\<rparr>]) p v)"
  using set_changed_transition [OF assms] by (rule set_changed_step)

text \<open>
  Claim C4 (the code does not do this). The invariant is not preserved by every
  operation. \<open>modified_child_world\<close> is the tree after a node whose attributes were edited
  while it was detached has been assigned under the key of an existing entry: the
  invariant holds at the root (nothing is pending, the flag is unset) and at the child
  (its attributes are changed, its flag is set). Writing one more attribute of the child
  adds the child's key to the modified children of the root; the flag of the child is set
  already, so the setter of the child returns at once and the root is never told: the
  root has a modified child and its flag is unset.
\<close>

theorem attrs_write_breaks_invariant:
  "\<not> has_pending (heap modified_child_world ! 0) \<and> \<not> changed (heap modified_child_world ! 0)
   \<and> has_pending (heap modified_child_world ! 1) \<and> changed (heap modified_child_world ! 1)
   \<and> length (heap modified_child_world) = 2
   \<and> attrs_ns (heap modified_child_world ! 1) =
        Some \<lparr>items = [(''sn'', Unicode ''x''), (''cn'', Unicode ''a'')], attrs_changed = Some True\<rparr>
   \<and> modified_children (heap (fst (attrs_setitem example_env Registered modified_child_world 1
           \<lparr>items = [(''sn'', Unicode ''x''), (''cn'', Unicode ''a'')], attrs_changed = Some True\<rparr>
           ''mail'' (Unicode ''y''))) ! 0) = [Some ''cn=a'']
   \<and> has_pending (heap (fst (attrs_setitem example_env Registered modified_child_world 1
           \<lparr>items = [(''sn'', Unicode ''x''), (''cn'', Unicode ''a'')], attrs_changed = Some True\<rparr>
           ''mail'' (Unicode ''y''))) ! 0)
   \<and> \<not> changed (heap (fst (attrs_setitem example_env Registered modified_child_world 1
           \<lparr>items = [(''sn'', Unicode ''x''), (''cn'', Unicode ''a'')], attrs_changed = Some True\<rparr>
           ''mail'' (Unicode ''y''))) ! 0)"
  by (simp add: modified_child_world_def example_env_def new_node_def
      has_pending_def staged_def attrs_are_changed_def attrs_flag_def attrs_setitem_def
      set_attrs_modified_def put_attrs_def update_node_def is_binary_def
      pending_add_or_delete_def set_changed.simps set_add_def Let_def)

section \<open>Properties of the attribute load\<close>

lemma nth_update_any: "h[n := x] ! k = (if k = n \<and> n < length h then x else h ! k)"
  by (cases "n < length h") (auto simp: nth_list_update list_update_beyond)

lemma heap_update_node [simp]: "heap (update_node n f w) = (heap w)[n := f (heap w ! n)]"
  and calls_update_node [simp]: "calls (update_node n f w) = calls w"
  by (simp_all add: update_node_def)

lemma heap_put_attrs:
  "heap (put_attrs loc n a w) =
     (case loc of Registered \<Rightarrow> (heap w)[n := (heap w ! n)\<lparr>attrs_ns := Some a\<rparr>] | Detached \<Rightarrow> heap w)"
  and calls_put_attrs [simp]: "calls (put_attrs loc n a w) = calls w"
  by (simp_all add: put_attrs_def split: attrs_loc.splits)

lemma heap_frame_refl [simp]: "heap_frame h h"
  by (simp add: heap_frame_def node_frame_def)

lemma heap_frame_trans: "heap_frame h h' \<Longrightarrow> heap_frame h' h'' \<Longrightarrow> heap_frame h h''"
  by (simp add: heap_frame_def node_frame_def)

lemma heap_frame_update:
  "node_frame (h ! n) x \<Longrightarrow> heap_frame h (h[n := x])"
  by (auto simp: heap_frame_def nth_update_any node_frame_def)

lemma heap_frame_set_changed: "heap_frame h (flags_after h n v)"
  by (simp add: heap_frame_def node_frame_def)

lemma heap_frame_put_attrs: "heap_frame (heap w) (heap (put_attrs loc n a w))"
  by (cases loc) (auto simp: heap_put_attrs intro!: heap_frame_update simp: node_frame_def)

lemma set_attrs_modified_frame:
  "heap_frame (heap w) (heap (fst (set_attrs_modified loc w n a)))"
  and set_attrs_modified_calls: "calls (fst (set_attrs_modified loc w n a)) = calls w"
proof -
  let ?w1 = "put_attrs loc n (a\<lparr>attrs_changed := Some True\<rparr>) w"
  let ?w2 = "update_node n (\<lambda>nd. nd\<lparr>action := Some ACTION_MODIFY\<rparr>) ?w1"
  let ?h3 = "flags_after (heap ?w2) n True"
  have f1: "heap_frame (heap w) (heap ?w1)" by (rule heap_frame_put_attrs)
  have f2: "heap_frame (heap ?w1) (heap ?w2)"
    by (simp add: heap_frame_update node_frame_def)
  have f3: "heap_frame (heap ?w2) ?h3" by (rule heap_frame_set_changed)
  have f123: "heap_frame (heap w) ?h3"
    using f1 f2 f3 heap_frame_trans by blast
  have f4: "heap_frame ?h3 (?h3[p := (?h3 ! p)\<lparr>modified_children := s\<rparr>])" for p s
    by (simp add: heap_frame_update node_frame_def)
  show "heap_frame (heap w) (heap (fst (set_attrs_modified loc w n a)))"
    using f1 f123 f4 heap_frame_trans [OF f123 f4]
    by (auto simp: set_attrs_modified_def Let_def split: option.splits)
  show "calls (fst (set_attrs_modified loc w n a)) = calls w"
    by (auto simp: set_attrs_modified_def Let_def split: option.splits)
qed

lemma pending_put_attrs [simp]:
  "pending_add_or_delete (heap (put_attrs loc n a w) ! k) = pending_add_or_delete (heap w ! k)"
  and action_put_attrs [simp]: "action (heap (put_attrs loc n a w) ! k) = action (heap w ! k)"
  and modified_put_attrs [simp]:
    "modified_children (heap (put_attrs loc n a w) ! k) = modified_children (heap w ! k)"
  and parent_put_attrs [simp]: "parent (heap (put_attrs loc n a w) ! k) = parent (heap w ! k)"
  and name_put_attrs [simp]: "name (heap (put_attrs loc n a w) ! k) = name (heap w ! k)"
  and length_put_attrs [simp]: "length (heap (put_attrs loc n a w)) = length (heap w)"
  by (cases loc; simp add: heap_put_attrs nth_update_any pending_add_or_delete_def)+

lemma set_attrs_modified_action:
  "action (heap (fst (set_attrs_modified loc w n a)) ! k) =
     (if k = n \<and> n < length (heap w) \<and> \<not> pending_add_or_delete (heap w ! n)
      then Some ACTION_MODIFY else action (heap w ! k))"
  by (auto simp: set_attrs_modified_def Let_def nth_update_any split: option.splits)

lemma set_attrs_modified_pending:
  "pending_add_or_delete (heap (fst (set_attrs_modified loc w n a)) ! n)
     = pending_add_or_delete (heap w ! n)"
  using set_attrs_modified_action [of loc w n a n]
  by (auto simp: pending_add_or_delete_def)

lemma set_attrs_modified_modified:
  "modified_children (heap (fst (set_attrs_modified loc w n a)) ! k) =
     (if \<not> pending_add_or_delete (heap w ! n) \<and> parent (heap w ! n) = Some k
           \<and> k < length (heap w)
      then set_add (name (heap w ! n)) (modified_children (heap w ! k))
      else modified_children (heap w ! k))"
  by (auto simp: set_attrs_modified_def Let_def nth_update_any split: option.splits)

lemma set_attrs_modified_snd:
  "snd (set_attrs_modified loc w n a) = a\<lparr>attrs_changed := Some True\<rparr>"
  by (auto simp: set_attrs_modified_def Let_def split: option.splits)

lemma attrs_setitem_eq:
  "attrs_setitem S loc w n a key val =
     set_attrs_modified loc
       (put_attrs loc n (a\<lparr>items := odict_set key (if \<not> is_binary S key then decode val else val) (items a)\<rparr>) w)
       n (a\<lparr>items := odict_set key (if \<not> is_binary S key then decode val else val) (items a)\<rparr>)"
  by (simp add: attrs_setitem_def Let_def)

lemma attrs_setitem_frame: "heap_frame (heap w) (heap (fst (attrs_setitem S loc w n a key val)))"
  unfolding attrs_setitem_eq
  using heap_frame_put_attrs set_attrs_modified_frame heap_frame_trans by blast

lemma attrs_setitem_calls [simp]: "calls (fst (attrs_setitem S loc w n a key val)) = calls w"
  unfolding attrs_setitem_eq by (simp add: set_attrs_modified_calls)

lemma attrs_setitem_pending [simp]:
  "pending_add_or_delete (heap (fst (attrs_setitem S loc w n a key val)) ! n)
     = pending_add_or_delete (heap w ! n)"
  unfolding attrs_setitem_eq by (simp add: set_attrs_modified_pending)

lemma attrs_setitem_modified:
  "modified_children (heap (fst (attrs_setitem S loc w n a key val)) ! k) =
     (if \<not> pending_add_or_delete (heap w ! n) \<and> parent (heap w ! n) = Some k
           \<and> k < length (heap w)
      then set_add (name (heap w ! n)) (modified_children (heap w ! k))
      else modified_children (heap w ! k))"
  unfolding attrs_setitem_eq by (simp add: set_attrs_modified_modified)

lemma heap_frame_fields:
  assumes "heap_frame h h'"
  shows "length h' = length h" "name (h' ! k) = name (h ! k)" "parent (h' ! k) = parent (h ! k)"
    "dn (h' ! k) = dn (h ! k)" "ldap_session (h' ! k) = ldap_session (h ! k)"
    "storage (h' ! k) = storage (h ! k)" "reload (h' ! k) = reload (h ! k)"
    "added_children (h' ! k) = added_children (h ! k)"
    "deleted_children (h' ! k) = deleted_children (h ! k)"
  using assms by (simp_all add: heap_frame_def node_frame_def)

lemma set_add_idem [simp]: "set_add x (set_add x s) = set_add x s"
  by (simp add: set_add_def)

lemma load_items_frame:
  "heap_frame (heap w) (heap (fst (load_items S loc w n a eattrs)))"
proof (induction eattrs arbitrary: w a)
  case Nil
  show ?case by simp
next
  case (Cons kv rest)
  obtain key item where kv: "kv = (key, item)" by (cases kv)
  show ?case
    unfolding kv
    using attrs_setitem_frame Cons.IH heap_frame_trans
    by (simp add: split_beta) blast
qed

lemma load_items_calls [simp]: "calls (fst (load_items S loc w n a eattrs)) = calls w"
proof (induction eattrs arbitrary: w a)
  case Nil
  show ?case by simp
next
  case (Cons kv rest)
  obtain key item where kv: "kv = (key, item)" by (cases kv)
  show ?case unfolding kv by (simp add: split_beta Cons.IH)
qed

lemma load_items_pending [simp]:
  "pending_add_or_delete (heap (fst (load_items S loc w n a eattrs)) ! n)
     = pending_add_or_delete (heap w ! n)"
proof (induction eattrs arbitrary: w a)
  case Nil
  show ?case by simp
next
  case (Cons kv rest)
  obtain key item where kv: "kv = (key, item)" by (cases kv)
  show ?case unfolding kv by (simp add: split_beta Cons.IH)
qed

lemma load_items_modified:
  "modified_children (heap (fst (load_items S loc w n a eattrs)) ! k) =
     (if \<not> pending_add_or_delete (heap w ! n) \<and> parent (heap w ! n) = Some k
           \<and> k < length (heap w) \<and> eattrs \<noteq> []
      then set_add (name (heap w ! n)) (modified_children (heap w ! k))
      else modified_children (heap w ! k))"
proof (induction eattrs arbitrary: w a)
  case Nil
  show ?case by simp
next
  case (Cons kv rest)
  obtain key item where kv: "kv = (key, item)" by (cases kv)
  let ?w1 = "fst (if length item = 1 \<and> \<not> is_multivalued S key
             then attrs_setitem S loc w n a key (Str (hd item))
             else attrs_setitem S loc w n a key (PyList (map Str item)))"
  have fr: "heap_frame (heap w) (heap ?w1)"
    by (simp add: attrs_setitem_frame)
  have pend: "pending_add_or_delete (heap ?w1 ! n) = pending_add_or_delete (heap w ! n)"
    by simp
  have m1: "modified_children (heap ?w1 ! k) =
     (if \<not> pending_add_or_delete (heap w ! n) \<and> parent (heap w ! n) = Some k
           \<and> k < length (heap w)
      then set_add (name (heap w ! n)) (modified_children (heap w ! k))
      else modified_children (heap w ! k))"
    by (simp add: attrs_setitem_modified)
  show ?case
    unfolding kv
    using pend m1 heap_frame_fields(1-3) [OF fr]
    by (simp add: split_beta Cons.IH)
qed

lemma set_changed_outcome:
  "fst (set_changed h n v) = Inr () \<or> fst (set_changed h n v) = Inl AttributeError"
proof (induction h n v rule: set_changed_cases)
  case (noop h n v)
  show ?case
  proof (cases "v \<or> \<not> unset_raises h n")
    case True
    with noop show ?thesis by (simp add: set_changed_refused)
  next
    case False
    then show ?thesis by (simp add: set_changed_raises)
  qed
next
  case (root h n v)
  then show ?case by (simp add: set_changed_step)
next
  case (step h n v p)
  then show ?case by (simp add: set_changed_step)
qed

lemma set_changed_no_KeyError [simp]: "fst (set_changed h n v) \<noteq> Inl KeyError"
  using set_changed_outcome [of h n v] by auto

lemma set_changed_False_mono:
  "changed (flags_after h n False ! k) \<Longrightarrow> changed (h ! k)"
  using set_changed_keeps_or_sets [of h n False k] by auto

lemma set_changed_True_mono:
  "changed (h ! k) \<Longrightarrow> changed (flags_after h n True ! k)"
  using set_changed_keeps_or_sets [of h n True k] by auto

lemma set_changed_False_clears:
  assumes "fst (set_changed h n False) = Inr ()" "n < length h" "\<not> has_pending (h ! n)"
  shows "\<not> changed (flags_after h n False ! n)"
proof (cases "stores h n False")
  case False
  have "\<not> unset_raises h n"
    using assms(1) set_changed_raises [of h n] by auto
  with False assms(2,3) have "\<not> changed (h ! n)"
    by (auto simp: stores_def unset_raises_def has_pending_def)
  with False show ?thesis by (simp add: set_changed_noop)
next
  case True
  let ?h' = "h[n := (h ! n)\<lparr>changed := False\<rparr>]"
  have off: "\<not> changed (?h' ! n)" using assms by simp
  show ?thesis
  proof (cases "parent (h ! n)")
    case None
    with True off show ?thesis by (simp add: set_changed_step)
  next
    case (Some p)
    with True have "flags_after h n False = flags_after ?h' p False"
      by (simp add: set_changed_step)
    with off set_changed_False_mono [of ?h' p n] show ?thesis by auto
  qed
qed

lemma set_changed_False_refused:
  assumes "has_pending (h ! n)"
  shows "changed (flags_after h n False ! n) = changed (h ! n)"
  using set_changed_refuses [OF assms] by simp

lemma load_unset_snd: "snd (snd (load_unset loc w n a)) = a\<lparr>attrs_changed := Some False\<rparr>"
  by (auto simp: load_unset_def Let_def split_beta split: option.splits sum.splits)

lemma heap_unmarked:
  "length (unmarked loc w n a) = length (heap w)"
  "heap_frame (heap w) (unmarked loc w n a)"
proof -
  let ?w1 = "put_attrs loc n (a\<lparr>attrs_changed := Some False\<rparr>) w"
  have f1: "heap_frame (heap w) (heap ?w1)" by (rule heap_frame_put_attrs)
  have f2: "heap_frame (heap w1) (heap (update_node p (\<lambda>pn. pn\<lparr>modified_children := s pn\<rparr>) w1))"
    for w1 p s by (simp add: heap_frame_update node_frame_def)
  have f3: "heap_frame (heap w2) (heap (update_node n (\<lambda>nd. nd\<lparr>action := None\<rparr>) w2))" for w2
    by (simp add: heap_frame_update node_frame_def)
  show "heap_frame (heap w) (unmarked loc w n a)"
    using heap_frame_trans [OF f1 f3] heap_frame_trans [OF heap_frame_trans [OF f1 f2] f3]
    by (auto simp: unmarked_def Let_def split: option.splits)
  then show "length (unmarked loc w n a) = length (heap w)"
    by (simp add: heap_frame_def)
qed

lemma unmarked_changed [simp]: "changed (unmarked loc w n a ! k) = changed (heap w ! k)"
  by (cases loc)
     (auto simp: unmarked_def Let_def put_attrs_def nth_update_any split: option.splits)

lemma unmarked_action:
  "n < length (heap w) \<Longrightarrow> action (unmarked loc w n a ! n) = None"
  by (cases loc)
     (auto simp: unmarked_def Let_def put_attrs_def nth_update_any split: option.splits)

lemma unmarked_modified:
  "modified_children (unmarked loc w n a ! k) =
     (if parent (heap w ! n) = Some k \<and> k < length (heap w)
      then removeAll (name (heap w ! n)) (modified_children (heap w ! k))
      else modified_children (heap w ! k))"
  by (cases loc)
     (auto simp: unmarked_def Let_def put_attrs_def nth_update_any split: option.splits)

lemma unmarked_attrs_ns:
  "n < length (heap w) \<Longrightarrow>
   attrs_ns (unmarked Registered w n a ! n) = Some (a\<lparr>attrs_changed := Some False\<rparr>)"
  by (auto simp: unmarked_def Let_def put_attrs_def nth_update_any split: option.splits)

text \<open>
  The three ways through \<open>load_unset\<close>: nothing to unset at a node pending Add or Delete,
  \<open>KeyError\<close> from the removal, and otherwise the outcome of the setter.
\<close>

lemma load_unset_pending:
  "pending_add_or_delete (heap w ! n) \<Longrightarrow>
   load_unset loc w n a =
     (Inr (), put_attrs loc n (a\<lparr>attrs_changed := Some False\<rparr>) w, a\<lparr>attrs_changed := Some False\<rparr>)"
  by (simp add: load_unset_def Let_def)

lemma load_unset_missing:
  "\<not> pending_add_or_delete (heap w ! n) \<Longrightarrow> parent (heap w ! n) = Some p \<Longrightarrow>
   name (heap w ! n) \<notin> set (modified_children (heap w ! p)) \<Longrightarrow>
   load_unset loc w n a =
     (Inl KeyError, put_attrs loc n (a\<lparr>attrs_changed := Some False\<rparr>) w,
      a\<lparr>attrs_changed := Some False\<rparr>)"
  by (simp add: load_unset_def Let_def set_remove_def)

lemma heap_override [simp]:
  "(update_node n f w)\<lparr>heap := h\<rparr> = w\<lparr>heap := h\<rparr>"
  "(put_attrs loc n a w)\<lparr>heap := h\<rparr> = w\<lparr>heap := h\<rparr>"
  by (cases loc; simp add: put_attrs_def update_node_def)+

lemma load_unset_setter:
  assumes "\<not> pending_add_or_delete (heap w ! n)"
    "\<forall>p. parent (heap w ! n) = Some p \<longrightarrow> name (heap w ! n) \<in> set (modified_children (heap w ! p))"
  shows "load_unset loc w n a =
     (fst (set_changed (unmarked loc w n a) n False),
      w\<lparr>heap := flags_after (unmarked loc w n a) n False\<rparr>,
      a\<lparr>attrs_changed := Some False\<rparr>)"
proof (cases "parent (heap w ! n)")
  case None
  with assms(1) show ?thesis
    by (simp add: load_unset_def unmarked_def Let_def split_beta)
next
  case (Some p)
  with assms(2) have "name (heap w ! n) \<in> set (modified_children (heap w ! p))" by simp
  with Some assms(1) show ?thesis
    by (simp add: load_unset_def unmarked_def Let_def split_beta set_remove_def)
qed

lemma load_unset_KeyError:
  "(fst (load_unset loc w n a) = Inl KeyError) =
     (\<not> pending_add_or_delete (heap w ! n)
      \<and> (\<exists>p. parent (heap w ! n) = Some p
             \<and> name (heap w ! n) \<notin> set (modified_children (heap w ! p))))"
proof (cases "pending_add_or_delete (heap w ! n)")
  case True
  then show ?thesis by (simp add: load_unset_pending)
next
  case np: False
  show ?thesis
  proof (cases "\<exists>p. parent (heap w ! n) = Some p
             \<and> name (heap w ! n) \<notin> set (modified_children (heap w ! p))")
    case True
    then obtain p where "parent (heap w ! n) = Some p"
        "name (heap w ! n) \<notin> set (modified_children (heap w ! p))" by blast
    with np show ?thesis by (simp add: load_unset_missing)
  next
    case False
    then have "\<forall>p. parent (heap w ! n) = Some p \<longrightarrow>
        name (heap w ! n) \<in> set (modified_children (heap w ! p))" by blast
    from load_unset_setter [OF np this] False np show ?thesis by simp
  qed
qed

lemma load_unset_calls [simp]: "calls (fst (snd (load_unset loc w n a))) = calls w"
  by (auto simp: load_unset_def Let_def split_beta split: option.splits sum.splits)

lemma load_unset_frame: "heap_frame (heap w) (heap (fst (snd (load_unset loc w n a))))"
proof -
  let ?w1 = "put_attrs loc n (a\<lparr>attrs_changed := Some False\<rparr>) w"
  have f1: "heap_frame (heap w) (heap ?w1)" by (rule heap_frame_put_attrs)
  have f2: "heap_frame (heap w1) (heap (update_node p (\<lambda>pn. pn\<lparr>modified_children := s\<rparr>) w1))"
    for w1 p s by (simp add: heap_frame_update node_frame_def)
  have f3: "heap_frame (heap w2)
      (flags_after (heap (update_node n (\<lambda>nd. nd\<lparr>action := None\<rparr>) w2)) n False)" for w2
    using heap_frame_trans [OF _ heap_frame_set_changed]
    by (simp add: heap_frame_update node_frame_def)
  show ?thesis
    using f1 heap_frame_trans [OF f1 f3] heap_frame_trans [OF heap_frame_trans [OF f1 f2] f3]
    by (auto simp: load_unset_def Let_def split_beta split: option.splits sum.splits)
qed

lemma load_unset_action:
  assumes "fst (load_unset loc w n a) \<noteq> Inl KeyError" "\<not> pending_add_or_delete (heap w ! n)"
    "n < length (heap w)"
  shows "action (heap (fst (snd (load_unset loc w n a))) ! n) = None"
proof -
  have "\<forall>p. parent (heap w ! n) = Some p \<longrightarrow>
      name (heap w ! n) \<in> set (modified_children (heap w ! p))"
    using assms(1,2) by (auto simp: load_unset_KeyError)
  from load_unset_setter [OF assms(2) this] show ?thesis
    by (simp add: unmarked_action assms(3))
qed

lemma load_unset_changed:
  assumes "fst (load_unset loc w n a) = Inr ()" "\<not> pending_add_or_delete (heap w ! n)"
    "n < length (heap w)" "\<not> has_pending (heap (fst (snd (load_unset loc w n a))) ! n)"
  shows "\<not> changed (heap (fst (snd (load_unset loc w n a))) ! n)"
proof -
  have "\<forall>p. parent (heap w ! n) = Some p \<longrightarrow>
      name (heap w ! n) \<in> set (modified_children (heap w ! p))"
    using assms(1,2) load_unset_KeyError [of loc w n a] by auto
  note eq = load_unset_setter [OF assms(2) this, of loc a]
  have ok: "fst (set_changed (unmarked loc w n a) n False) = Inr ()"
    using assms(1) eq by simp
  have np: "\<not> has_pending (unmarked loc w n a ! n)" using assms(4) eq by simp
  show ?thesis
    using set_changed_False_clears [OF ok _ np] eq assms(3) by (simp add: heap_unmarked)
qed

lemma load_unset_stays_changed:
  assumes "fst (load_unset loc w n a) \<noteq> Inl KeyError" "\<not> pending_add_or_delete (heap w ! n)"
    "has_pending (heap (fst (snd (load_unset loc w n a))) ! n)" "changed (heap w ! n)"
  shows "changed (heap (fst (snd (load_unset loc w n a))) ! n)"
proof -
  have "\<forall>p. parent (heap w ! n) = Some p \<longrightarrow>
      name (heap w ! n) \<in> set (modified_children (heap w ! p))"
    using assms(1,2) by (auto simp: load_unset_KeyError)
  note eq = load_unset_setter [OF assms(2) this, of loc a]
  have hp: "has_pending (unmarked loc w n a ! n)" using assms(3) eq by simp
  show ?thesis
    using set_changed_False_refused [OF hp] eq assms(4) by simp
qed

lemma load_unset_modified:
  assumes "fst (load_unset loc w n a) \<noteq> Inl KeyError"
  shows "modified_children (heap (fst (snd (load_unset loc w n a))) ! k) =
     (if \<not> pending_add_or_delete (heap w ! n) \<and> parent (heap w ! n) = Some k
           \<and> k < length (heap w)
      then removeAll (name (heap w ! n)) (modified_children (heap w ! k))
      else modified_children (heap w ! k))"
proof (cases "pending_add_or_delete (heap w ! n)")
  case True
  then show ?thesis by (simp add: load_unset_pending)
next
  case False
  have "\<forall>p. parent (heap w ! n) = Some p \<longrightarrow>
      name (heap w ! n) \<in> set (modified_children (heap w ! p))"
    using assms False by (auto simp: load_unset_KeyError)
  from load_unset_setter [OF False this] False show ?thesis
    by (simp add: unmarked_modified)
qed

lemma reload_put_attrs [simp]: "reload (heap (put_attrs loc n a w) ! k) = reload (heap w ! k)"
  using heap_frame_fields(7) [OF heap_frame_put_attrs] .

lemma DN_frame: "heap_frame h h' \<Longrightarrow> DN h' n = DN h n"
  by (auto simp: DN_def child_dn_def heap_frame_def node_frame_def split: option.splits)

lemma DN_put_attrs [simp]: "DN (heap (put_attrs loc n a w)) m = DN (heap w) m"
  using DN_frame [OF heap_frame_put_attrs] .

lemma session_search_heap [simp]: "heap (snd (session_search S w q)) = heap w"
  and session_search_calls: "calls (snd (session_search S w q)) = calls w @ [Search q]"
  by (auto simp: session_search_def Let_def split: sum.splits prod.splits)

lemma session_search_no_page:
  "q_page_size q = None \<Longrightarrow> ldap_search S (calls w) q = Inr (es, c) \<Longrightarrow>
   session_search S w q = (Inr (es, None), w\<lparr>calls := calls w @ [Search q]\<rparr>)"
  by (simp add: session_search_def Let_def)

lemma delete_present_eq:
  "delete_present loc w n a key =
     set_attrs_modified loc (put_attrs loc n (a\<lparr>items := odict_del key (items a)\<rparr>) w) n
       (a\<lparr>items := odict_del key (items a)\<rparr>)"
  by (simp add: delete_present_def Let_def)

lemma delete_present_frame: "heap_frame (heap w) (heap (fst (delete_present loc w n a key)))"
  unfolding delete_present_eq
  using heap_frame_put_attrs set_attrs_modified_frame heap_frame_trans by blast

lemma delete_present_calls [simp]: "calls (fst (delete_present loc w n a key)) = calls w"
  unfolding delete_present_eq by (simp add: set_attrs_modified_calls)

lemma delete_present_pending [simp]:
  "pending_add_or_delete (heap (fst (delete_present loc w n a key)) ! n)
     = pending_add_or_delete (heap w ! n)"
  unfolding delete_present_eq by (simp add: set_attrs_modified_pending)

lemma delete_present_modified:
  "modified_children (heap (fst (delete_present loc w n a key)) ! k) =
     (if \<not> pending_add_or_delete (heap w ! n) \<and> parent (heap w ! n) = Some k
           \<and> k < length (heap w)
      then set_add (name (heap w ! n)) (modified_children (heap w ! k))
      else modified_children (heap w ! k))"
  unfolding delete_present_eq by (simp add: set_attrs_modified_modified)

lemma clear_keys_frame: "heap_frame (heap w) (heap (fst (clear_keys loc w n a keys)))"
proof (induction keys arbitrary: w a)
  case Nil
  show ?case by simp
next
  case (Cons key rest)
  show ?case
    using delete_present_frame Cons.IH heap_frame_trans
    by (simp add: split_beta) blast
qed

lemma clear_keys_calls [simp]: "calls (fst (clear_keys loc w n a keys)) = calls w"
  by (induction keys arbitrary: w a) (simp_all add: split_beta)

lemma clear_keys_pending [simp]:
  "pending_add_or_delete (heap (fst (clear_keys loc w n a keys)) ! n)
     = pending_add_or_delete (heap w ! n)"
  by (induction keys arbitrary: w a) (simp_all add: split_beta)

lemma clear_keys_modified:
  "modified_children (heap (fst (clear_keys loc w n a keys)) ! k) =
     (if \<not> pending_add_or_delete (heap w ! n) \<and> parent (heap w ! n) = Some k
           \<and> k < length (heap w) \<and> keys \<noteq> []
      then set_add (name (heap w ! n)) (modified_children (heap w ! k))
      else modified_children (heap w ! k))"
proof (induction keys arbitrary: w a)
  case Nil
  show ?case by simp
next
  case (Cons key rest)
  let ?w1 = "fst (delete_present loc w n a key)"
  have fr: "heap_frame (heap w) (heap ?w1)" by (rule delete_present_frame)
  have pend: "pending_add_or_delete (heap ?w1 ! n) = pending_add_or_delete (heap w ! n)"
    by simp
  show ?case
    using pend delete_present_modified [of loc w n a key k] heap_frame_fields(1-3) [OF fr]
    by (simp add: split_beta Cons.IH)
qed

lemma attrs_clear_frame: "heap_frame (heap w) (heap (fst (attrs_clear S loc w n a)))"
  by (simp add: attrs_clear_def clear_keys_frame heap_frame_put_attrs)

lemma attrs_clear_calls [simp]: "calls (fst (attrs_clear S loc w n a)) = calls w"
  by (simp add: attrs_clear_def)

lemma attrs_clear_pending [simp]:
  "pending_add_or_delete (heap (fst (attrs_clear S loc w n a)) ! n)
     = pending_add_or_delete (heap w ! n)"
  by (simp add: attrs_clear_def)

lemma attrs_clear_modified:
  "modified_children (heap (fst (attrs_clear S loc w n a)) ! k) =
     (if \<not> pending_add_or_delete (heap w ! n) \<and> parent (heap w ! n) = Some k
           \<and> k < length (heap w) \<and> clear_notifies S \<and> items a \<noteq> []
      then set_add (name (heap w ! n)) (modified_children (heap w ! k))
      else modified_children (heap w ! k))"
  by (simp add: attrs_clear_def clear_keys_modified)

lemma attrs_clear_reload [simp]:
  "reload (heap (fst (attrs_clear S loc w n a)) ! k) = reload (heap w ! k)"
  using heap_frame_fields(7) [OF attrs_clear_frame] .

lemma attrs_clear_DN [simp]: "DN (heap (fst (attrs_clear S loc w n a))) m = DN (heap w) m"
  using DN_frame [OF attrs_clear_frame] .

lemma heap_fetched: "heap (fetched S loc w n a base) = heap (fst (attrs_clear S loc w n a))"
  by (simp add: fetched_def)

lemma load_run:
  assumes "truthy (name (heap w ! n))" "ldap_session (heap w ! n)"
    "action (heap w ! n) \<noteq> Some ACTION_ADD"
    "DN (heap w) n = Inr base"
    "ldap_search S (calls w) (load_query base (reload (heap w ! n))) = Inr ([(d, eattrs)], c)"
  shows "load S loc w n a =
     load_unset loc
       (fst (load_items S loc (fetched S loc w n a base) n (snd (attrs_clear S loc w n a)) eattrs)) n
       (snd (load_items S loc (fetched S loc w n a base) n (snd (attrs_clear S loc w n a)) eattrs))"
proof -
  have q: "q_page_size (load_query base (reload (heap w ! n))) = None"
    by (simp add: load_query_def)
  have "session_search S (fst (attrs_clear S loc w n a))
          (load_query base (reload (heap w ! n)))
        = (Inr ([(d, eattrs)], None), fetched S loc w n a base)"
    using session_search_no_page [OF q, of S "fst (attrs_clear S loc w n a)"] assms(5)
    by (simp add: fetched_def)
  then show ?thesis
    using assms(1-4) by (simp add: load_def Let_def split_beta)
qed

text \<open>A flag that is set stays set through the writes of attributes.\<close>

lemma changed_put_attrs [simp]:
  "changed (heap (put_attrs loc n a w) ! k) = changed (heap w ! k)"
  by (cases loc) (simp_all add: heap_put_attrs nth_update_any)

lemma set_attrs_modified_changed:
  assumes "changed (heap w ! k)"
  shows "changed (heap (fst (set_attrs_modified loc w n a)) ! k)"
proof -
  let ?w1 = "put_attrs loc n (a\<lparr>attrs_changed := Some True\<rparr>) w"
  let ?w2 = "update_node n (\<lambda>nd. nd\<lparr>action := Some ACTION_MODIFY\<rparr>) ?w1"
  let ?h3 = "flags_after (heap ?w2) n True"
  have c1: "changed (heap ?w1 ! k)" using assms by simp
  have "changed (heap ?w2 ! k)" using c1 by (auto simp: nth_update_any)
  then have c3: "changed (?h3 ! k)" by (rule set_changed_True_mono)
  have c4: "changed (?h3[p := (?h3 ! p)\<lparr>modified_children := s\<rparr>] ! k)" for p s
    using c3 by (auto simp: nth_update_any)
  show ?thesis
    using c1 c3 c4 by (auto simp: set_attrs_modified_def Let_def split: option.splits)
qed

lemma attrs_setitem_changed:
  "changed (heap w ! k) \<Longrightarrow> changed (heap (fst (attrs_setitem S loc w n a key val)) ! k)"
  unfolding attrs_setitem_eq by (rule set_attrs_modified_changed) simp

lemma load_items_changed:
  "changed (heap w ! k) \<Longrightarrow> changed (heap (fst (load_items S loc w n a eattrs)) ! k)"
proof (induction eattrs arbitrary: w a)
  case Nil
  then show ?case by simp
next
  case (Cons kv rest)
  obtain key item where kv: "kv = (key, item)" by (cases kv)
  show ?case
    unfolding kv using Cons.prems
    by (simp add: split_beta Cons.IH attrs_setitem_changed)
qed

lemma delete_present_changed:
  "changed (heap w ! k) \<Longrightarrow> changed (heap (fst (delete_present loc w n a key)) ! k)"
  unfolding delete_present_eq by (rule set_attrs_modified_changed) simp

lemma clear_keys_changed:
  "changed (heap w ! k) \<Longrightarrow> changed (heap (fst (clear_keys loc w n a keys)) ! k)"
proof (induction keys arbitrary: w a)
  case Nil
  then show ?case by simp
next
  case (Cons key rest)
  then show ?case by (simp add: split_beta delete_present_changed)
qed

lemma attrs_clear_changed:
  "changed (heap w ! k) \<Longrightarrow> changed (heap (fst (attrs_clear S loc w n a)) ! k)"
  by (simp add: attrs_clear_def clear_keys_changed)

lemma load_guard:
  "\<not> truthy (name (heap w ! n)) \<or> \<not> ldap_session (heap w ! n)
     \<or> action (heap w ! n) = Some ACTION_ADD \<Longrightarrow>
   load S loc w n a = (Inr (), w, a)"
  by (auto simp: load_def Let_def)

lemma load_success_shape:
  assumes "truthy (name (heap w ! n))" "ldap_session (heap w ! n)"
    "action (heap w ! n) \<noteq> Some ACTION_ADD"
    "fst (load S loc w n a) = Inr ()"
  shows "\<exists>w3 a3. load S loc w n a = load_unset loc w3 n a3
           \<and> heap_frame (heap w) (heap w3)
           \<and> pending_add_or_delete (heap w3 ! n) = pending_add_or_delete (heap w ! n)
           \<and> (changed (heap w ! n) \<longrightarrow> changed (heap w3 ! n))"
proof -
  let ?a1 = "snd (attrs_clear S loc w n a)"
  let ?w1 = "fst (attrs_clear S loc w n a)"
  obtain base where base: "DN (heap w) n = Inr base"
    using assms by (cases "DN (heap w) n") (auto simp: load_def Let_def split_beta)
  let ?q = "load_query base (reload (heap w ! n))"
  obtain r w2 where ss: "session_search S ?w1 ?q = (r, w2)" by (cases "session_search S ?w1 ?q")
  have h2: "heap w2 = heap ?w1" using session_search_heap [of S ?w1 ?q] ss by simp
  obtain entry cookie where r: "r = Inr (entry, cookie)"
    using assms base ss by (cases r) (auto simp: load_def Let_def split_beta)
  have len: "length entry = 1"
    using assms base ss r by (auto simp: load_def Let_def split_beta split: if_splits)
  let ?li = "load_items S loc w2 n ?a1 (snd (hd entry))"
  have eq: "load S loc w n a = load_unset loc (fst ?li) n (snd ?li)"
    using assms(1-3) base ss r len by (simp add: load_def Let_def split_beta)
  have fr1: "heap_frame (heap w) (heap w2)"
    using attrs_clear_frame [of w S loc n a] h2 by simp
  have fr2: "heap_frame (heap w2) (heap (fst ?li))"
    by (rule load_items_frame)
  have fr: "heap_frame (heap w) (heap (fst ?li))"
    by (rule heap_frame_trans [OF fr1 fr2])
  have pe: "pending_add_or_delete (heap (fst ?li) ! n) = pending_add_or_delete (heap w ! n)"
    by (simp add: h2)
  have ch: "changed (heap (fst ?li) ! n)" if "changed (heap w ! n)"
    using load_items_changed [of w2 n S loc n ?a1 "snd (hd entry)"]
      attrs_clear_changed [OF that, of S loc n a] h2 by simp
  from eq fr pe ch show ?thesis by blast
qed

lemma load_unset_attrs_ns:
  assumes "n < length (heap w)" "fst (load_unset Registered w n a) = Inr ()"
  shows "attrs_ns (heap (fst (snd (load_unset Registered w n a))) ! n)
           = Some (a\<lparr>attrs_changed := Some False\<rparr>)"
proof (cases "pending_add_or_delete (heap w ! n)")
  case True
  then show ?thesis using assms(1) by (simp add: load_unset_pending heap_put_attrs)
next
  case False
  have "\<forall>p. parent (heap w ! n) = Some p \<longrightarrow>
      name (heap w ! n) \<in> set (modified_children (heap w ! p))"
    using assms(2) False load_unset_KeyError [of Registered w n a] by auto
  from load_unset_setter [OF False this] show ?thesis
    by (simp add: unmarked_attrs_ns assms(1))
qed

text \<open>
  Claim C5, as amended. Let \<open>load\<close> return on a node. If the node has no name or no
  session, or is pending Add, nothing has changed: the world and the container are as
  before. Otherwise the entry was fetched and the changed flag of the attribute container
  is unset, and a registered container is the one held by the node. If moreover the node
  was pending neither Add nor Delete before, then its pending action is cleared, its key
  is gone from the modified children of its parent, and the setter was asked to unset its
  changed flag: the flag is false afterwards when the node has no staged children and no
  changed registered attributes, and a flag that was set before the load is still set
  when it has.
\<close>

theorem load_unsets_markers:
  assumes "n < length (heap w)" "load S loc w n a = (Inr (), w', a')"
  shows
    "(\<not> truthy (name (heap w ! n)) \<or> \<not> ldap_session (heap w ! n)
        \<or> action (heap w ! n) = Some ACTION_ADD \<longrightarrow> w' = w \<and> a' = a)
     \<and> (truthy (name (heap w ! n)) \<and> ldap_session (heap w ! n)
          \<and> action (heap w ! n) \<noteq> Some ACTION_ADD \<longrightarrow>
          attrs_changed a' = Some False
        \<and> (loc = Registered \<longrightarrow> attrs_ns (heap w' ! n) = Some a')
        \<and> (\<not> pending_add_or_delete (heap w ! n) \<longrightarrow>
              action (heap w' ! n) = None
            \<and> (\<not> has_pending (heap w' ! n) \<longrightarrow> \<not> changed (heap w' ! n))
            \<and> (has_pending (heap w' ! n) \<and> changed (heap w ! n) \<longrightarrow> changed (heap w' ! n))
            \<and> (\<forall>p. parent (heap w ! n) = Some p \<and> p < length (heap w) \<longrightarrow>
                  name (heap w ! n) \<notin> set (modified_children (heap w' ! p)))))"
proof (cases "truthy (name (heap w ! n)) \<and> ldap_session (heap w ! n)
          \<and> action (heap w ! n) \<noteq> Some ACTION_ADD")
  case False
  then have "load S loc w n a = (Inr (), w, a)" by (auto simp: load_guard)
  with assms(2) False show ?thesis by auto
next
  case True
  then have g: "truthy (name (heap w ! n))" "ldap_session (heap w ! n)"
      "action (heap w ! n) \<noteq> Some ACTION_ADD" by simp_all
  have ok: "fst (load S loc w n a) = Inr ()" using assms(2) by simp
  obtain w3 a3 where eq: "load S loc w n a = load_unset loc w3 n a3"
    and fr: "heap_frame (heap w) (heap w3)"
    and pe: "pending_add_or_delete (heap w3 ! n) = pending_add_or_delete (heap w ! n)"
    and ch: "changed (heap w ! n) \<longrightarrow> changed (heap w3 ! n)"
    using load_success_shape [OF g ok] by blast
  have res: "load_unset loc w3 n a3 = (Inr (), w', a')" using eq assms(2) by simp
  then have r1: "fst (load_unset loc w3 n a3) = Inr ()"
    and r2: "fst (snd (load_unset loc w3 n a3)) = w'"
    and r3: "snd (snd (load_unset loc w3 n a3)) = a'" by simp_all
  have nk: "fst (load_unset loc w3 n a3) \<noteq> Inl KeyError" using r1 by simp
  have len: "length (heap w3) = length (heap w)"
    and nm: "name (heap w3 ! n) = name (heap w ! n)"
    and pa: "parent (heap w3 ! n) = parent (heap w ! n)"
    using heap_frame_fields [OF fr] by simp_all
  have a': "a' = a3\<lparr>attrs_changed := Some False\<rparr>"
    using load_unset_snd [of loc w3 n a3] r3 by simp
  have c1: "attrs_changed a' = Some False" by (simp add: a')
  have c2: "attrs_ns (heap w' ! n) = Some a'" if "loc = Registered"
    using load_unset_attrs_ns [of n w3 a3] that r1 r2 a' assms(1) len by simp
  have c3: "action (heap w' ! n) = None" if "\<not> pending_add_or_delete (heap w ! n)"
    using load_unset_action [OF nk] r2 that pe assms(1) len by simp
  have c4: "\<not> changed (heap w' ! n)"
    if "\<not> pending_add_or_delete (heap w ! n)" "\<not> has_pending (heap w' ! n)"
    using load_unset_changed [OF r1] r2 that pe assms(1) len by simp
  have c5: "changed (heap w' ! n)"
    if "\<not> pending_add_or_delete (heap w ! n)" "has_pending (heap w' ! n)" "changed (heap w ! n)"
    using load_unset_stays_changed [OF nk] r2 that pe ch by simp
  have c6: "name (heap w ! n) \<notin> set (modified_children (heap w' ! p))"
    if "\<not> pending_add_or_delete (heap w ! n)" "parent (heap w ! n) = Some p" "p < length (heap w)" for p
    using load_unset_modified [OF nk, of p] r2 that pe nm pa len by simp
  from True c1 c2 c3 c4 c5 c6 show ?thesis by blast
qed

lemma DN_update_storage [simp]:
  "DN (h[n := (h ! n)\<lparr>storage := s\<rparr>]) m = DN h m"
  by (auto simp: DN_def child_dn_def nth_update_any split: option.splits)

lemma load_KeyError:
  assumes "truthy (name (heap w ! n))" "ldap_session (heap w ! n)"
    "DN (heap w) n = Inr base"
    "ldap_search S (calls w) (load_query base (reload (heap w ! n))) = Inr ([(d, eattrs)], c)"
    "parent (heap w ! n) = Some p" "\<not> pending_add_or_delete (heap w ! n)" "p < length (heap w)"
  shows "(fst (load S loc w n a) = Inl KeyError) =
           (name (heap w ! n) \<notin> set (modified_children (heap w ! p)) \<and> eattrs = []
            \<and> \<not> (clear_notifies S \<and> items a \<noteq> []))"
    and "fst (load S loc w n a) \<noteq> Inl KeyError \<Longrightarrow>
           name (heap w ! n) \<notin> set (modified_children (heap (fst (snd (load S loc w n a))) ! p))"
proof -
  have na: "action (heap w ! n) \<noteq> Some ACTION_ADD"
    using assms(6) by (simp add: pending_add_or_delete_def)
  let ?a1 = "snd (attrs_clear S loc w n a)"
  let ?w2 = "fetched S loc w n a base"
  let ?li = "load_items S loc ?w2 n ?a1 eattrs"
  have eq: "load S loc w n a = load_unset loc (fst ?li) n (snd ?li)"
    by (rule load_run [OF assms(1,2) na assms(3,4)])
  have fr2: "heap_frame (heap w) (heap ?w2)"
    unfolding heap_fetched by (rule attrs_clear_frame)
  have fr: "heap_frame (heap w) (heap (fst ?li))"
    by (rule heap_frame_trans [OF fr2 load_items_frame])
  have pe2: "pending_add_or_delete (heap ?w2 ! n) = pending_add_or_delete (heap w ! n)"
    by (simp add: heap_fetched)
  have nm2: "name (heap ?w2 ! n) = name (heap w ! n)"
    and pa2: "parent (heap ?w2 ! n) = parent (heap w ! n)"
    and len2: "length (heap ?w2) = length (heap w)"
    using heap_frame_fields [OF fr2] by simp_all
  have md2: "modified_children (heap ?w2 ! k) =
     (if \<not> pending_add_or_delete (heap w ! n) \<and> parent (heap w ! n) = Some k
           \<and> k < length (heap w) \<and> clear_notifies S \<and> items a \<noteq> []
      then set_add (name (heap w ! n)) (modified_children (heap w ! k))
      else modified_children (heap w ! k))" for k
    unfolding heap_fetched by (rule attrs_clear_modified)
  have pe: "pending_add_or_delete (heap (fst ?li) ! n) = pending_add_or_delete (heap w ! n)"
    by (simp add: pe2)
  have nm: "name (heap (fst ?li) ! n) = name (heap w ! n)"
    and pa: "parent (heap (fst ?li) ! n) = parent (heap w ! n)"
    and len: "length (heap (fst ?li)) = length (heap w)"
    using heap_frame_fields [OF fr] by simp_all
  have md: "modified_children (heap (fst ?li) ! p) =
     (if eattrs \<noteq> [] \<or> clear_notifies S \<and> items a \<noteq> []
      then set_add (name (heap w ! n)) (modified_children (heap w ! p))
      else modified_children (heap w ! p))"
    using load_items_modified [of S loc ?w2 n ?a1 eattrs p] assms(5-7)
    by (auto simp: pe2 nm2 pa2 len2 md2)
  show "(fst (load S loc w n a) = Inl KeyError) =
           (name (heap w ! n) \<notin> set (modified_children (heap w ! p)) \<and> eattrs = []
            \<and> \<not> (clear_notifies S \<and> items a \<noteq> []))"
    unfolding eq using assms(5,6)
    by (auto simp: load_unset_KeyError pe2 nm pa md set_add_def)
  show "name (heap w ! n) \<notin> set (modified_children (heap (fst (snd (load S loc w n a))) ! p))"
    if "fst (load S loc w n a) \<noteq> Inl KeyError"
    using load_unset_modified [of loc "fst ?li" n "snd ?li" p] that assms(5-7) unfolding eq
    by (simp add: pe2 nm pa len)
qed

lemma load_spares:
  assumes "truthy (name (heap w ! n))" "ldap_session (heap w ! n)"
    "DN (heap w) n = Inr base"
    "ldap_search S (calls w) (load_query base (reload (heap w ! n))) = Inr ([(d, eattrs)], c)"
    "parent (heap w ! n) = None \<or> pending_add_or_delete (heap w ! n)"
  shows "fst (load S loc w n a) \<noteq> Inl KeyError"
    and "modified_children (heap (fst (snd (load S loc w n a))) ! k)
           = modified_children (heap w ! k)"
proof -
  have both: "fst (load S loc w n a) \<noteq> Inl KeyError
      \<and> modified_children (heap (fst (snd (load S loc w n a))) ! k)
           = modified_children (heap w ! k)"
  proof (cases "action (heap w ! n) = Some ACTION_ADD")
    case True
    then show ?thesis by (simp add: load_guard)
  next
    case na: False
    let ?a1 = "snd (attrs_clear S loc w n a)"
    let ?w2 = "fetched S loc w n a base"
    let ?li = "load_items S loc ?w2 n ?a1 eattrs"
    have eq: "load S loc w n a = load_unset loc (fst ?li) n (snd ?li)"
      by (rule load_run [OF assms(1,2) na assms(3,4)])
    have fr2: "heap_frame (heap w) (heap ?w2)"
      unfolding heap_fetched by (rule attrs_clear_frame)
    have fr: "heap_frame (heap w) (heap (fst ?li))"
      by (rule heap_frame_trans [OF fr2 load_items_frame])
    have pe2: "pending_add_or_delete (heap ?w2 ! n) = pending_add_or_delete (heap w ! n)"
      by (simp add: heap_fetched)
    have pa2: "parent (heap ?w2 ! n) = parent (heap w ! n)"
      using heap_frame_fields [OF fr2] by simp
    have md2: "modified_children (heap ?w2 ! k) = modified_children (heap w ! k)"
      unfolding heap_fetched using assms(5) by (auto simp: attrs_clear_modified)
    have pe: "pending_add_or_delete (heap (fst ?li) ! n) = pending_add_or_delete (heap w ! n)"
      by (simp add: pe2)
    have pa: "parent (heap (fst ?li) ! n) = parent (heap w ! n)"
      using heap_frame_fields [OF fr] by simp
    have md: "modified_children (heap (fst ?li) ! k) = modified_children (heap w ! k)"
      using load_items_modified [of S loc ?w2 n ?a1 eattrs k] assms(5)
      by (auto simp: pe2 pa2 md2)
    have nk: "fst (load_unset loc (fst ?li) n (snd ?li)) \<noteq> Inl KeyError"
      using assms(5) by (auto simp: load_unset_KeyError pe2 pa)
    show ?thesis
      unfolding eq using nk load_unset_modified [OF nk, of k] assms(5)
      by (auto simp: pe2 pa md)
  qed
  from both show "fst (load S loc w n a) \<noteq> Inl KeyError" by simp
  from both show "modified_children (heap (fst (snd (load S loc w n a))) ! k)
           = modified_children (heap w ! k)" by simp
qed

lemma attrs_first_access:
  "attrs_ns (heap w ! n) = None \<Longrightarrow>
   (fst (attrs S w n) = Inl e) = (fst (load S Detached w n empty_attributes) = Inl e)"
  by (auto simp: attrs_def attributes_factory_def split: prod.splits sum.splits)

lemma invalidate_reload:
  "attrs_ns (heap w ! n) = Some a0 \<Longrightarrow> \<not> changed (heap w ! n) \<Longrightarrow> n < length (heap w) \<Longrightarrow>
   (fst (invalidate S w n None) = Inl e) =
     (fst (load S Registered (update_node n (\<lambda>nd. nd\<lparr>storage := []\<rparr>) w) n a0) = Inl e)"
  by (auto simp: invalidate_def attrs_def Let_def split: prod.splits sum.splits)

text \<open>
  Claim C10, as amended. Let \<open>load\<close> fetch the one entry of a node. For a node with a
  parent that is pending neither Add nor Delete, the unsetting step removes the key of
  the node from the modified children of the parent without testing for it: it raises
  \<open>KeyError\<close> exactly when the key is not in that set at this point. The writes of the
  load itself put the key there, so the whole of \<open>load\<close> raises \<open>KeyError\<close> exactly when
  the key was not in the set before, the entry has no attribute to store, and \<open>clear\<close>
  deleted no item through \<open>__delitem__\<close>; whenever it does not, the key is gone from the
  set. The same holds for the load on first access of the attributes (which starts from
  an empty container) and for the reload of the registered attributes by \<open>invalidate\<close>.
  A node without a parent, or pending Add or Delete, never raises \<open>KeyError\<close> here and
  leaves the modified children of every node as they were.
\<close>

theorem load_removes_key_from_parent:
  assumes "truthy (name (heap w ! n))" "ldap_session (heap w ! n)"
    "DN (heap w) n = Inr base"
    "ldap_search S (calls w) (load_query base (reload (heap w ! n))) = Inr ([(d, eattrs)], c)"
  shows
    "(\<forall>p. parent (heap w ! n) = Some p \<and> \<not> pending_add_or_delete (heap w ! n) \<longrightarrow>
        ((fst (load_unset loc w n a) = Inl KeyError) =
           (name (heap w ! n) \<notin> set (modified_children (heap w ! p))))
      \<and> (p < length (heap w) \<and> n < length (heap w) \<longrightarrow>
          ((fst (load S loc w n a) = Inl KeyError) =
             (name (heap w ! n) \<notin> set (modified_children (heap w ! p)) \<and> eattrs = []
              \<and> \<not> (clear_notifies S \<and> items a \<noteq> [])))
        \<and> (fst (load S loc w n a) \<noteq> Inl KeyError \<longrightarrow>
              name (heap w ! n) \<notin> set (modified_children (heap (fst (snd (load S loc w n a))) ! p)))
        \<and> (attrs_ns (heap w ! n) = None \<longrightarrow>
             ((fst (attrs S w n) = Inl KeyError) =
                (name (heap w ! n) \<notin> set (modified_children (heap w ! p)) \<and> eattrs = [])))
        \<and> (\<forall>a0. attrs_ns (heap w ! n) = Some a0 \<and> \<not> changed (heap w ! n) \<longrightarrow>
             ((fst (invalidate S w n None) = Inl KeyError) =
                (name (heap w ! n) \<notin> set (modified_children (heap w ! p)) \<and> eattrs = []
                 \<and> \<not> (clear_notifies S \<and> items a0 \<noteq> []))))))
     \<and> (parent (heap w ! n) = None \<or> pending_add_or_delete (heap w ! n) \<longrightarrow>
          fst (load S loc w n a) \<noteq> Inl KeyError
        \<and> (\<forall>k. modified_children (heap (fst (snd (load S loc w n a))) ! k)
                = modified_children (heap w ! k)))"
proof -
  have step: "(fst (load_unset loc w n a) = Inl KeyError) =
           (name (heap w ! n) \<notin> set (modified_children (heap w ! p)))"
    if "parent (heap w ! n) = Some p" "\<not> pending_add_or_delete (heap w ! n)" for p
    using that by (simp add: load_unset_KeyError)
  have first: "(fst (attrs S w n) = Inl KeyError) =
                (name (heap w ! n) \<notin> set (modified_children (heap w ! p)) \<and> eattrs = [])"
    if "parent (heap w ! n) = Some p" "\<not> pending_add_or_delete (heap w ! n)"
       "p < length (heap w)" "attrs_ns (heap w ! n) = None" for p
    using load_KeyError(1) [OF assms that(1-3), of Detached empty_attributes]
      attrs_first_access [OF that(4), of S KeyError]
    by (simp add: empty_attributes_def)
  have again: "(fst (invalidate S w n None) = Inl KeyError) =
                (name (heap w ! n) \<notin> set (modified_children (heap w ! p)) \<and> eattrs = []
                 \<and> \<not> (clear_notifies S \<and> items a0 \<noteq> []))"
    if "parent (heap w ! n) = Some p" "\<not> pending_add_or_delete (heap w ! n)"
       "p < length (heap w)" "n < length (heap w)"
       "attrs_ns (heap w ! n) = Some a0" "\<not> changed (heap w ! n)" for p a0
  proof -
    let ?w1 = "update_node n (\<lambda>nd. nd\<lparr>storage := []\<rparr>) w"
    have h: "truthy (name (heap ?w1 ! n))" "ldap_session (heap ?w1 ! n)"
        "DN (heap ?w1) n = Inr base"
        "ldap_search S (calls ?w1) (load_query base (reload (heap ?w1 ! n)))
           = Inr ([(d, eattrs)], c)"
        "parent (heap ?w1 ! n) = Some p" "\<not> pending_add_or_delete (heap ?w1 ! n)"
        "p < length (heap ?w1)"
      using assms that(1-4) by (simp_all add: nth_update_any pending_add_or_delete_def)
    have m: "name (heap ?w1 ! n) = name (heap w ! n)"
        "modified_children (heap ?w1 ! p) = modified_children (heap w ! p)"
      by (simp_all add: nth_update_any)
    show ?thesis
      using load_KeyError(1) [OF h, of Registered a0]
        invalidate_reload [OF that(5,6,4), of S KeyError]
      by (simp only: m)
  qed
  have inner: "((fst (load S loc w n a) = Inl KeyError) =
             (name (heap w ! n) \<notin> set (modified_children (heap w ! p)) \<and> eattrs = []
              \<and> \<not> (clear_notifies S \<and> items a \<noteq> [])))
        \<and> (fst (load S loc w n a) \<noteq> Inl KeyError \<longrightarrow>
              name (heap w ! n) \<notin> set (modified_children (heap (fst (snd (load S loc w n a))) ! p)))
        \<and> (attrs_ns (heap w ! n) = None \<longrightarrow>
             ((fst (attrs S w n) = Inl KeyError) =
                (name (heap w ! n) \<notin> set (modified_children (heap w ! p)) \<and> eattrs = [])))
        \<and> (\<forall>a0. attrs_ns (heap w ! n) = Some a0 \<and> \<not> changed (heap w ! n) \<longrightarrow>
             ((fst (invalidate S w n None) = Inl KeyError) =
                (name (heap w ! n) \<notin> set (modified_children (heap w ! p)) \<and> eattrs = []
                 \<and> \<not> (clear_notifies S \<and> items a0 \<noteq> []))))"
    if h: "parent (heap w ! n) = Some p" "\<not> pending_add_or_delete (heap w ! n)"
      and l: "p < length (heap w)" "n < length (heap w)" for p
  proof (intro conjI impI allI)
    show "(fst (load S loc w n a) = Inl KeyError) =
             (name (heap w ! n) \<notin> set (modified_children (heap w ! p)) \<and> eattrs = []
              \<and> \<not> (clear_notifies S \<and> items a \<noteq> []))"
      by (rule load_KeyError(1) [OF assms h l(1)])
    show "name (heap w ! n) \<notin> set (modified_children (heap (fst (snd (load S loc w n a))) ! p))"
      if "fst (load S loc w n a) \<noteq> Inl KeyError"
      using that by (rule load_KeyError(2) [OF assms h l(1)])
    show "(fst (attrs S w n) = Inl KeyError) =
                (name (heap w ! n) \<notin> set (modified_children (heap w ! p)) \<and> eattrs = [])"
      if "attrs_ns (heap w ! n) = None"
      using that by (rule first [OF h l(1)])
    show "(fst (invalidate S w n None) = Inl KeyError) =
                (name (heap w ! n) \<notin> set (modified_children (heap w ! p)) \<and> eattrs = []
                 \<and> \<not> (clear_notifies S \<and> items a0 \<noteq> []))"
      if "attrs_ns (heap w ! n) = Some a0 \<and> \<not> changed (heap w ! n)" for a0
      using that again [OF h l, of a0] by simp
  qed
  have outer: "fst (load S loc w n a) \<noteq> Inl KeyError
        \<and> (\<forall>k. modified_children (heap (fst (snd (load S loc w n a))) ! k)
                = modified_children (heap w ! k))"
    if "parent (heap w ! n) = None \<or> pending_add_or_delete (heap w ! n)"
    using load_spares [OF assms that, of loc a] by simp
  show ?thesis
  proof (intro conjI allI impI)
    fix p
    assume "parent (heap w ! n) = Some p \<and> \<not> pending_add_or_delete (heap w ! n)"
    then have h: "parent (heap w ! n) = Some p" "\<not> pending_add_or_delete (heap w ! n)"
      by simp_all
    show "(fst (load_unset loc w n a) = Inl KeyError) =
           (name (heap w ! n) \<notin> set (modified_children (heap w ! p)))"
      by (rule step [OF h])
    assume "p < length (heap w) \<and> n < length (heap w)"
    then have l: "p < length (heap w)" "n < length (heap w)" by simp_all
    note i = inner [OF h l]
    show "(fst (load S loc w n a) = Inl KeyError) =
             (name (heap w ! n) \<notin> set (modified_children (heap w ! p)) \<and> eattrs = []
              \<and> \<not> (clear_notifies S \<and> items a \<noteq> []))"
      using i by (rule conjunct1)
    show "name (heap w ! n) \<notin> set (modified_children (heap (fst (snd (load S loc w n a))) ! p))"
      if "fst (load S loc w n a) \<noteq> Inl KeyError"
      using i that by simp
    show "(fst (attrs S w n) = Inl KeyError) =
                (name (heap w ! n) \<notin> set (modified_children (heap w ! p)) \<and> eattrs = [])"
      if "attrs_ns (heap w ! n) = None"
      using i that by simp
    show "(fst (invalidate S w n None) = Inl KeyError) =
                (name (heap w ! n) \<notin> set (modified_children (heap w ! p)) \<and> eattrs = []
                 \<and> \<not> (clear_notifies S \<and> items a0 \<noteq> []))"
      if "attrs_ns (heap w ! n) = Some a0 \<and> \<not> changed (heap w ! n)" for a0
      using i that by simp
  next
    assume o: "parent (heap w ! n) = None \<or> pending_add_or_delete (heap w ! n)"
    show "fst (load S loc w n a) \<noteq> Inl KeyError" using outer [OF o] by simp
    show "modified_children (heap (fst (snd (load S loc w n a))) ! k)
                = modified_children (heap w ! k)" for k
      using outer [OF o] by simp
  qed
qed

lemma load_frame: "heap_frame (heap w) (heap (fst (snd (load S loc w n a))))"
proof -
  let ?a1 = "snd (attrs_clear S loc w n a)"
  let ?w1 = "fst (attrs_clear S loc w n a)"
  have f1: "heap_frame (heap w) (heap ?w1)" by (rule attrs_clear_frame)
  have f2: "heap_frame (heap w) (heap (snd (session_search S ?w1 q)))" for q
    using f1 by simp
  have f3: "heap_frame (heap w)
      (heap (fst (snd (load_unset loc (fst (load_items S loc w2 n ?a1 es)) n
                         (snd (load_items S loc w2 n ?a1 es))))))"
    if "heap w2 = heap ?w1" for w2 es
    using heap_frame_trans [OF heap_frame_trans [OF f1 load_items_frame] load_unset_frame] that
      load_items_frame [of w2 S loc n ?a1 es]
    by (metis f1 heap_frame_trans load_unset_frame)
  show ?thesis
  proof (cases "DN (heap w) n")
    case (Inl e)
    then show ?thesis using f1 by (simp add: load_def Let_def split_beta)
  next
    case (Inr base)
    obtain r w2 where ss: "session_search S ?w1 (load_query base (reload (heap w ! n))) = (r, w2)"
      by (cases "session_search S ?w1 (load_query base (reload (heap w ! n)))")
    have h2: "heap w2 = heap ?w1"
      using session_search_heap [of S ?w1 "load_query base (reload (heap w ! n))"] ss by simp
    show ?thesis
    proof (cases r)
      case (Inl e)
      then show ?thesis using Inr ss h2 f1 by (simp add: load_def Let_def split_beta)
    next
      case (Inr ec)
      obtain entry cookie where ec: "ec = (entry, cookie)" by (cases ec)
      show ?thesis
        using \<open>DN (heap w) n = Inr base\<close> ss Inr ec h2 f1 f3 [OF h2]
        by (simp add: load_def Let_def split_beta)
    qed
  qed
qed

lemma load_calls_heap_only:
  "storage (heap (fst (snd (load S loc w n a))) ! k) = storage (heap w ! k)"
  "reload (heap (fst (snd (load S loc w n a))) ! k) = reload (heap w ! k)"
  "length (heap (fst (snd (load S loc w n a)))) = length (heap w)"
  using load_frame [of w S loc n a] by (simp_all add: heap_frame_def node_frame_def)

lemma attrs_frame: "heap_frame (heap w) (heap (snd (attrs S w n)))"
proof (cases "attrs_ns (heap w ! n)")
  case (Some a)
  then show ?thesis by (simp add: attrs_def)
next
  case None
  obtain r w1 a1 where l: "load S Detached w n empty_attributes = (r, w1, a1)"
    by (cases "load S Detached w n empty_attributes") auto
  have f: "heap_frame (heap w) (heap w1)"
    using load_frame [of w S Detached n empty_attributes] l by simp
  have f': "heap_frame (heap w1) (heap (update_node n (\<lambda>nd. nd\<lparr>attrs_ns := Some a1\<rparr>) w1))"
    by (simp add: heap_frame_update node_frame_def)
  show ?thesis
    using None l f heap_frame_trans [OF f f']
    by (cases r) (simp_all add: attrs_def attributes_factory_def)
qed

lemma map_of_odict_del: "map_of (odict_del k d) j = (if j = k then None else map_of d j)"
  by (induction d) (auto simp: odict_del_def)

text \<open>
  Claim C6. Without a key, \<open>invalidate\<close> on a changed node raises \<open>RuntimeError\<close> (the
  invalid-state failure) and leaves the world as it was. On an unchanged node, when it
  returns, the child cache of the node is empty, the reload flag is set, and the world is
  the one left by \<open>load\<close> on the registered attributes of the node, which ran after the
  cache was cleared. With a key: a cached child that is changed gives \<open>RuntimeError\<close> and
  an unchanged world, a cached unchanged child is removed from the cache, and a key that
  is not cached changes nothing.
\<close>

theorem invalidate_behaviour:
  assumes "n < length (heap w)"
  shows
    "(changed (heap w ! n) \<longrightarrow> invalidate S w n None = (Inl RuntimeError, w))
     \<and> (\<not> changed (heap w ! n) \<and> fst (invalidate S w n None) = Inr () \<longrightarrow>
          storage (heap (snd (invalidate S w n None)) ! n) = []
        \<and> reload (heap (snd (invalidate S w n None)) ! n)
        \<and> (\<exists>a w2. attrs S (update_node n (\<lambda>nd. nd\<lparr>storage := []\<rparr>) w) n = (Inr a, w2)
              \<and> fst (load S Registered w2 n a) = Inr ()
              \<and> snd (invalidate S w n None) =
                  update_node n (\<lambda>nd. nd\<lparr>reload := True\<rparr>)
                    (fst (snd (load S Registered w2 n a)))))
     \<and> (\<forall>k c. map_of (storage (heap w ! n)) k = Some c \<and> changed (heap w ! c) \<longrightarrow>
          invalidate S w n (Some k) = (Inl RuntimeError, w))
     \<and> (\<forall>k c. map_of (storage (heap w ! n)) k = Some c \<and> \<not> changed (heap w ! c) \<longrightarrow>
          invalidate S w n (Some k) =
            (Inr (), update_node n (\<lambda>nd. nd\<lparr>storage := odict_del k (storage nd)\<rparr>) w)
        \<and> map_of (storage (heap (snd (invalidate S w n (Some k))) ! n)) k = None)
     \<and> (\<forall>k. map_of (storage (heap w ! n)) k = None \<longrightarrow>
          invalidate S w n (Some k) = (Inr (), w))"
proof -
  let ?w1 = "update_node n (\<lambda>nd. nd\<lparr>storage := []\<rparr>) w"
  have p1: "invalidate S w n None = (Inl RuntimeError, w)" if "changed (heap w ! n)"
    using that by (simp add: invalidate_def)
  have p2: "storage (heap (snd (invalidate S w n None)) ! n) = []
        \<and> reload (heap (snd (invalidate S w n None)) ! n)
        \<and> (\<exists>a w2. attrs S ?w1 n = (Inr a, w2)
              \<and> fst (load S Registered w2 n a) = Inr ()
              \<and> snd (invalidate S w n None) =
                  update_node n (\<lambda>nd. nd\<lparr>reload := True\<rparr>)
                    (fst (snd (load S Registered w2 n a))))"
    if nc: "\<not> changed (heap w ! n)" and ok: "fst (invalidate S w n None) = Inr ()"
  proof -
    obtain r w2 where at: "attrs S ?w1 n = (r, w2)" by (cases "attrs S ?w1 n")
    obtain a where r: "r = Inr a"
      using nc ok at by (cases r) (auto simp: invalidate_def Let_def)
    obtain r3 w3 a3 where ld: "load S Registered w2 n a = (r3, w3, a3)"
      by (cases "load S Registered w2 n a") auto
    have r3: "r3 = Inr ()"
      using nc ok at r ld by (cases r3) (auto simp: invalidate_def Let_def)
    have res: "snd (invalidate S w n None) = update_node n (\<lambda>nd. nd\<lparr>reload := True\<rparr>) w3"
      using nc at r ld r3 by (simp add: invalidate_def Let_def)
    have s1: "storage (heap ?w1 ! n) = []" "length (heap ?w1) = length (heap w)"
      using assms by simp_all
    have f2: "heap_frame (heap ?w1) (heap w2)"
      using attrs_frame [of ?w1 S n] at by simp
    have f3: "heap_frame (heap w2) (heap w3)"
      using load_frame [of w2 S Registered n a] ld by simp
    have f: "heap_frame (heap ?w1) (heap w3)" by (rule heap_frame_trans [OF f2 f3])
    have s3: "storage (heap w3 ! n) = []" "length (heap w3) = length (heap w)"
      using heap_frame_fields(6) [OF f, of n] heap_frame_fields(1) [OF f] s1 by simp_all
    show ?thesis
      using res s3 assms at r ld r3 by (simp add: nth_update_any)
  qed
  have p3: "invalidate S w n (Some k) = (Inl RuntimeError, w)"
    if "map_of (storage (heap w ! n)) k = Some c" "changed (heap w ! c)" for k c
    using that by (simp add: invalidate_def)
  have p4: "invalidate S w n (Some k) =
            (Inr (), update_node n (\<lambda>nd. nd\<lparr>storage := odict_del k (storage nd)\<rparr>) w)
        \<and> map_of (storage (heap (snd (invalidate S w n (Some k))) ! n)) k = None"
    if "map_of (storage (heap w ! n)) k = Some c" "\<not> changed (heap w ! c)" for k c
    using that assms by (simp add: invalidate_def map_of_odict_del)
  have p5: "invalidate S w n (Some k) = (Inr (), w)"
    if "map_of (storage (heap w ! n)) k = None" for k
    using that by (simp add: invalidate_def)
  from p1 p2 p3 p4 p5 show ?thesis by blast
qed

section \<open>The attribute load on the examples\<close>

lemmas model_defs =
  load_def load_unset_def load_query_def session_search_def put_attrs_def update_node_def
  attrs_setitem_def set_attrs_modified_def pending_add_or_delete_def truthy_def DN_def
  child_dn_def join_comma_def is_binary_def is_multivalued_def set_add_def set_remove_def
  set_changed.simps new_node_def empty_attributes_def attrs_def attributes_factory_def
  invalidate_def has_pending_def attrs_are_changed_def odict_del_def Let_def
  attrs_clear_def delete_present_def attrs_flag_def staged_def

lemmas example_defs =
  clean_world_def staged_world_def staged_heap_def example_env_def bare_env_def

text \<open>
  Claim C5 as stated fails, in two ways. The child \<open>cn=a\<close> of \<open>staged_world\<close> has no
  pending action and one staged child; the first load of its attributes returns, and its
  changed flag is still set, because the setter does not unset the flag of a node with
  staged children. And on the child of \<open>added_world\<close>, which is pending Add, the load of
  its edited attributes returns at once: it completes, and the changed flag of the
  attribute container is still set.
\<close>

theorem load_keeps_changed_counterexample:
  "\<not> pending_add_or_delete (heap staged_world ! 1)
   \<and> fst (load example_env Detached staged_world 1 empty_attributes) = Inr ()
   \<and> changed (heap (fst (snd (load example_env Detached staged_world 1 empty_attributes))) ! 1)
   \<and> attrs_ns (heap added_world ! 1)
        = Some \<lparr>items = [(''cn'', Unicode ''b'')], attrs_changed = Some True\<rparr>
   \<and> load example_env Registered added_world 1
          \<lparr>items = [(''cn'', Unicode ''b'')], attrs_changed = Some True\<rparr>
        = (Inr (), added_world, \<lparr>items = [(''cn'', Unicode ''b'')], attrs_changed = Some True\<rparr>)"
  by (simp add: model_defs example_defs added_world_def)

theorem load_unsets_markers_witness:
  "action (heap pending_world ! 1) = Some ACTION_MODIFY \<and> changed (heap pending_world ! 1)
   \<and> Some ''cn=a'' \<in> set (modified_children (heap pending_world ! 0))
   \<and> attrs_ns (heap pending_world ! 1)
        = Some \<lparr>items = [(''cn'', Unicode ''a''), (''sn'', Unicode ''new'')],
                 attrs_changed = Some True\<rparr>
   \<and> attrs_changed (snd (snd (load example_env Registered pending_world 1
        \<lparr>items = [(''cn'', Unicode ''a''), (''sn'', Unicode ''new'')],
          attrs_changed = Some True\<rparr>))) = Some False
   \<and> attrs_ns (heap (fst (snd (load example_env Registered pending_world 1
        \<lparr>items = [(''cn'', Unicode ''a''), (''sn'', Unicode ''new'')],
          attrs_changed = Some True\<rparr>))) ! 1)
       = Some (snd (snd (load example_env Registered pending_world 1
        \<lparr>items = [(''cn'', Unicode ''a''), (''sn'', Unicode ''new'')],
          attrs_changed = Some True\<rparr>)))
   \<and> action (heap (fst (snd (load example_env Registered pending_world 1
        \<lparr>items = [(''cn'', Unicode ''a''), (''sn'', Unicode ''new'')],
          attrs_changed = Some True\<rparr>))) ! 1) = None
   \<and> \<not> changed (heap (fst (snd (load example_env Registered pending_world 1
        \<lparr>items = [(''cn'', Unicode ''a''), (''sn'', Unicode ''new'')],
          attrs_changed = Some True\<rparr>))) ! 1)
   \<and> Some ''cn=a'' \<notin> set (modified_children (heap (fst (snd (load example_env Registered
        pending_world 1
        \<lparr>items = [(''cn'', Unicode ''a''), (''sn'', Unicode ''new'')],
          attrs_changed = Some True\<rparr>))) ! 0))
   \<and> changed (heap (fst (snd (load example_env Detached staged_world 1 empty_attributes))) ! 1)
   \<and> fst (snd (load example_env Registered added_world 1
        \<lparr>items = [(''cn'', Unicode ''b'')], attrs_changed = Some True\<rparr>)) = added_world"
proof -
  let ?a = "\<lparr>items = [(''cn'', Unicode ''a''), (''sn'', Unicode ''new'')],
             attrs_changed = Some True\<rparr>"
  let ?b = "\<lparr>items = [(''cn'', Unicode ''b'')], attrs_changed = Some True\<rparr>"
  let ?L = "load example_env Registered pending_world 1 ?a"
  let ?M = "load example_env Detached staged_world 1 empty_attributes"
  let ?N = "load example_env Registered added_world 1 ?b"
  have pre: "action (heap pending_world ! 1) = Some ACTION_MODIFY"
      "changed (heap pending_world ! 1)"
      "Some ''cn=a'' \<in> set (modified_children (heap pending_world ! 0))"
      "attrs_ns (heap pending_world ! 1) = Some ?a"
    by (simp_all add: pending_world_def new_node_def)
  have l1: "1 < length (heap pending_world)" and l2: "?L = (Inr (), fst (snd ?L), snd (snd ?L))"
    by (simp_all add: model_defs example_defs pending_world_def)
  have l3: "truthy (name (heap pending_world ! 1))" "ldap_session (heap pending_world ! 1)"
      "action (heap pending_world ! 1) \<noteq> Some ACTION_ADD"
      "\<not> pending_add_or_delete (heap pending_world ! 1)"
      "parent (heap pending_world ! 1) = Some 0" "name (heap pending_world ! 1) = Some ''cn=a''"
      "0 < length (heap pending_world)"
      "\<not> has_pending (heap (fst (snd ?L)) ! 1)"
    by (simp_all add: model_defs example_defs pending_world_def staged_def attrs_flag_def)
  have m1: "1 < length (heap staged_world)" and m2: "?M = (Inr (), fst (snd ?M), snd (snd ?M))"
    by (simp_all add: model_defs example_defs)
  have m3: "truthy (name (heap staged_world ! 1))" "ldap_session (heap staged_world ! 1)"
      "action (heap staged_world ! 1) \<noteq> Some ACTION_ADD"
      "\<not> pending_add_or_delete (heap staged_world ! 1)"
      "changed (heap staged_world ! 1)"
      "has_pending (heap (fst (snd ?M)) ! 1)"
    by (simp_all add: model_defs example_defs staged_def attrs_flag_def)
  have n1: "1 < length (heap added_world)" and n2: "?N = (Inr (), fst (snd ?N), snd (snd ?N))"
    and n3: "action (heap added_world ! 1) = Some ACTION_ADD"
    by (simp_all add: model_defs added_world_def)
  have L: "attrs_changed (snd (snd ?L)) = Some False
      \<and> attrs_ns (heap (fst (snd ?L)) ! 1) = Some (snd (snd ?L))
      \<and> action (heap (fst (snd ?L)) ! 1) = None
      \<and> \<not> changed (heap (fst (snd ?L)) ! 1)
      \<and> Some ''cn=a'' \<notin> set (modified_children (heap (fst (snd ?L)) ! 0))"
    using load_unsets_markers [OF l1 l2] l3 by simp
  have M: "changed (heap (fst (snd ?M)) ! 1)"
    using load_unsets_markers [OF m1 m2] m3 by simp
  have N: "fst (snd ?N) = added_world"
    using load_unsets_markers [OF n1 n2] n3 by simp
  from pre L M N show ?thesis by simp
qed

text \<open>
  Claim C10 as stated fails: the child \<open>cn=a\<close> of \<open>clean_world\<close> is freshly looked up, has
  no pending action, and its key is not in the modified children of the root; the first
  access of its attributes loads them and returns. The entry has an attribute, and
  storing it puts the key into the set before the removal.
\<close>

theorem load_without_key_returns:
  "parent (heap clean_world ! 1) = Some 0 \<and> action (heap clean_world ! 1) = None
   \<and> attrs_ns (heap clean_world ! 1) = None \<and> name (heap clean_world ! 1) = Some ''cn=a''
   \<and> modified_children (heap clean_world ! 0) = []
   \<and> fst (attrs example_env clean_world 1)
        = Inr \<lparr>items = [(''cn'', Unicode ''a'')], attrs_changed = Some False\<rparr>
   \<and> fst (load example_env Detached clean_world 1 empty_attributes) = Inr ()"
  by (simp add: model_defs example_defs)

theorem load_removes_key_from_parent_witness:
  "fst (load example_env Detached clean_world 1 empty_attributes) \<noteq> Inl KeyError
   \<and> Some ''cn=a'' \<notin> set (modified_children
        (heap (fst (snd (load example_env Detached clean_world 1 empty_attributes))) ! 0))
   \<and> fst (attrs example_env clean_world 1) \<noteq> Inl KeyError
   \<and> fst (load_unset Detached clean_world 1 empty_attributes) = Inl KeyError
   \<and> fst (load bare_env Detached clean_world 1 empty_attributes) = Inl KeyError
   \<and> fst (attrs bare_env clean_world 1) = Inl KeyError
   \<and> fst (load bare_env Detached clean_world 1
             (empty_attributes\<lparr>items := [(''cn'', Str ''a'')]\<rparr>)) \<noteq> Inl KeyError
   \<and> fst (invalidate bare_env loaded_world 1 None) \<noteq> Inl KeyError
   \<and> fst (invalidate silent_env loaded_world 1 None) = Inl KeyError
   \<and> fst (load example_env Detached clean_world 0 empty_attributes) \<noteq> Inl KeyError"
proof -
  have a: "truthy (name (heap clean_world ! 1))" "ldap_session (heap clean_world ! 1)"
      "DN (heap clean_world) 1 = Inr ''cn=a,dc=x''"
    by (simp_all add: model_defs example_defs)
  have a4: "ldap_search example_env (calls clean_world)
        (load_query ''cn=a,dc=x'' (reload (heap clean_world ! 1)))
      = Inr ([(''cn=a,dc=x'', [(''cn'', [''a''])])], None)"
    by (simp add: model_defs example_defs)
  have b4: "ldap_search bare_env (calls clean_world)
        (load_query ''cn=a,dc=x'' (reload (heap clean_world ! 1)))
      = Inr ([(''cn=a,dc=x'', [])], None)"
    by (simp add: model_defs example_defs)
  have c: "truthy (name (heap clean_world ! 0))" "ldap_session (heap clean_world ! 0)"
      "DN (heap clean_world) 0 = Inr ''dc=x''"
    by (simp_all add: model_defs example_defs)
  have c4: "ldap_search example_env (calls clean_world)
        (load_query ''dc=x'' (reload (heap clean_world ! 0)))
      = Inr ([(''dc=x'', [])], None)"
    by (simp add: model_defs example_defs)
  have d: "truthy (name (heap loaded_world ! 1))" "ldap_session (heap loaded_world ! 1)"
      "DN (heap loaded_world) 1 = Inr ''cn=a,dc=x''"
    by (simp_all add: model_defs loaded_world_def)
  have d4: "ldap_search bare_env (calls loaded_world)
        (load_query ''cn=a,dc=x'' (reload (heap loaded_world ! 1)))
      = Inr ([(''cn=a,dc=x'', [])], None)"
    and e4: "ldap_search silent_env (calls loaded_world)
        (load_query ''cn=a,dc=x'' (reload (heap loaded_world ! 1)))
      = Inr ([(''cn=a,dc=x'', [])], None)"
    by (simp_all add: model_defs example_defs loaded_world_def silent_env_def)
  have facts: "parent (heap clean_world ! 1) = Some 0"
      "\<not> pending_add_or_delete (heap clean_world ! 1)" "0 < length (heap clean_world)"
      "1 < length (heap clean_world)"
      "name (heap clean_world ! 1) = Some ''cn=a''"
      "modified_children (heap clean_world ! 0) = []"
      "attrs_ns (heap clean_world ! 1) = None"
      "parent (heap clean_world ! 0) = None"
    by (simp_all add: model_defs example_defs)
  have lfacts: "parent (heap loaded_world ! 1) = Some 0"
      "\<not> pending_add_or_delete (heap loaded_world ! 1)" "0 < length (heap loaded_world)"
      "1 < length (heap loaded_world)"
      "name (heap loaded_world ! 1) = Some ''cn=a''"
      "modified_children (heap loaded_world ! 0) = []"
      "attrs_ns (heap loaded_world ! 1)
         = Some \<lparr>items = [(''cn'', Unicode ''a'')], attrs_changed = Some False\<rparr>"
      "\<not> changed (heap loaded_world ! 1)"
      "clear_notifies bare_env" "\<not> clear_notifies silent_env"
    by (simp_all add: model_defs example_defs loaded_world_def silent_env_def)
  have A: "fst (load example_env Detached clean_world 1 empty_attributes) \<noteq> Inl KeyError
      \<and> Some ''cn=a'' \<notin> set (modified_children
           (heap (fst (snd (load example_env Detached clean_world 1 empty_attributes))) ! 0))
      \<and> fst (attrs example_env clean_world 1) \<noteq> Inl KeyError
      \<and> fst (load_unset Detached clean_world 1 empty_attributes) = Inl KeyError"
    using load_removes_key_from_parent [OF a a4, of Detached empty_attributes] facts
    by simp
  have B: "fst (load bare_env Detached clean_world 1 empty_attributes) = Inl KeyError
      \<and> fst (attrs bare_env clean_world 1) = Inl KeyError"
    using load_removes_key_from_parent [OF a(1,2,3) b4, of Detached empty_attributes] facts
    by (simp add: empty_attributes_def)
  have C: "fst (load bare_env Detached clean_world 1
             (empty_attributes\<lparr>items := [(''cn'', Str ''a'')]\<rparr>)) \<noteq> Inl KeyError"
    using load_removes_key_from_parent [OF a(1,2,3) b4, of Detached
        "empty_attributes\<lparr>items := [(''cn'', Str ''a'')]\<rparr>"] facts
    by (simp add: empty_attributes_def bare_env_def example_env_def)
  have D: "fst (invalidate bare_env loaded_world 1 None) \<noteq> Inl KeyError"
    using load_removes_key_from_parent [OF d d4, of Detached empty_attributes] lfacts
    by simp
  have E: "fst (invalidate silent_env loaded_world 1 None) = Inl KeyError"
    using load_removes_key_from_parent [OF d e4, of Detached empty_attributes] lfacts
    by simp
  have F: "fst (load example_env Detached clean_world 0 empty_attributes) \<noteq> Inl KeyError"
    using load_removes_key_from_parent [OF c c4, of Detached empty_attributes] facts
    by simp
  from A B C D E F show ?thesis by simp
qed

theorem invalidate_behaviour_witness:
  "invalidate example_env staged_world 1 None = (Inl RuntimeError, staged_world)
   \<and> storage (heap (snd (invalidate example_env clean_world 0 None)) ! 0) = []
   \<and> reload (heap (snd (invalidate example_env clean_world 0 None)) ! 0)
   \<and> invalidate example_env staged_world 0 (Some ''cn=a'') = (Inl RuntimeError, staged_world)
   \<and> map_of (storage (heap (snd (invalidate example_env clean_world 0 (Some ''cn=a''))) ! 0)) ''cn=a'' = None
   \<and> invalidate example_env clean_world 0 (Some ''cn=zz'') = (Inr (), clean_world)"
proof -
  have s: "1 < length (heap staged_world)" "changed (heap staged_world ! 1)"
      "0 < length (heap staged_world)"
      "map_of (storage (heap staged_world ! 0)) ''cn=a'' = Some 1"
    by (simp_all add: model_defs example_defs)
  have c: "0 < length (heap clean_world)" "\<not> changed (heap clean_world ! 0)"
      "fst (invalidate example_env clean_world 0 None) = Inr ()"
      "map_of (storage (heap clean_world ! 0)) ''cn=a'' = Some 1"
      "\<not> changed (heap clean_world ! 1)"
      "map_of (storage (heap clean_world ! 0)) ''cn=zz'' = None"
    by (simp_all add: model_defs example_defs)
  show ?thesis
    using invalidate_behaviour [OF s(1), of example_env]
      invalidate_behaviour [OF s(3), of example_env]
      invalidate_behaviour [OF c(1), of example_env] s c
    by blast
qed

section \<open>Properties of search, iteration and modification\<close>

lemma result_items_single:
  assumes "fst (result_items S w n al [(d, e)]) = Inr res"
  shows "\<exists>item. res = [item] \<and> calculate_key S (heap w ! n) d e = Inr (res_key item)"
  using assms
  by (auto simp: res_key_def Let_def split: sum.splits option.splits prod.splits)

lemma result_items_single_key:
  assumes "calculate_key S (heap w ! n) d e = Inr key"
  shows "result_items S w n None [(d, e)] = (Inr [ResKey key], w)"
  using assms by simp

text \<open>
  Claim C7. Let \<open>search\<close> be called with \<open>exact_match\<close> set, and let the session answer
  with the list \<open>matches\<close>. With no match or with more than one, \<open>search\<close> raises
  \<open>ValueError\<close> (the data-integrity failure). With exactly one match the exact-match
  test lets the search go on as a search without \<open>exact_match\<close> does: a result it
  returns is a list of one element, which carries the key of that match; and when no
  attribute list was asked for and the key of the match can be computed, it returns the
  list of that one key.
\<close>

theorem search_exact_match:
  assumes "sa_exact_match args" "ldap_session (heap w ! n)" "DN (heap w) n = Inr base"
    "ldap_search S (calls w) (search_query S (heap w ! n) base args) = Inr (matches, rc)"
  shows
    "(length matches = 0 \<or> length matches > 1 \<longrightarrow> fst (search S w n args) = Inl ValueError)
     \<and> (\<forall>d e. matches = [(d, e)] \<longrightarrow>
          (\<forall>res c. fst (search S w n args) = Inr (res, c) \<longrightarrow>
             (\<exists>item. res = [item] \<and> calculate_key S (heap w ! n) d e = Inr (res_key item)))
        \<and> (\<forall>key. sa_attrlist args = None \<and> calculate_key S (heap w ! n) d e = Inr key \<longrightarrow>
             (\<exists>c. fst (search S w n args) = Inr ([ResKey key], c)))
        \<and> search S w n args = search S w n (args\<lparr>sa_exact_match := False\<rparr>))"
proof -
  let ?q = "search_query S (heap w ! n) base args"
  obtain c' where ss: "session_search S w ?q = (Inr (matches, c'), w\<lparr>calls := calls w @ [Search ?q]\<rparr>)"
    using assms(4) by (simp add: session_search_def Let_def)
  let ?w1 = "w\<lparr>calls := calls w @ [Search ?q]\<rparr>"
  have h1: "heap ?w1 = heap w" by simp
  have p1: "fst (search S w n args) = Inl ValueError" if "length matches = 0 \<or> length matches > 1"
    using that assms(1-3) ss by (auto simp: search_def Let_def)
  have eq: "search S w n args =
      (case result_items S ?w1 n (sa_attrlist args) [(d, e)] of
         (Inl x, w2) \<Rightarrow> (Inl x, w2)
       | (Inr res, w2) \<Rightarrow> (Inr (res, if sa_page_size args = None then sa_cookie args else c'), w2))"
    if "matches = [(d, e)]" for d e
    using that assms(1-3) ss by (simp add: search_def Let_def del: result_items.simps)
  have p2: "\<exists>item. res = [item] \<and> calculate_key S (heap w ! n) d e = Inr (res_key item)"
    if m: "matches = [(d, e)]" and r: "fst (search S w n args) = Inr (res, c)" for d e res c
  proof -
    have "fst (result_items S ?w1 n (sa_attrlist args) [(d, e)]) = Inr res"
      using r unfolding eq [OF m] by (auto split: prod.splits sum.splits)
    from result_items_single [OF this] show ?thesis by simp
  qed
  have p3: "\<exists>c. fst (search S w n args) = Inr ([ResKey key], c)"
    if m: "matches = [(d, e)]" and "sa_attrlist args = None"
      "calculate_key S (heap w ! n) d e = Inr key" for d e key
    using that unfolding eq [OF m] by simp
  have p4: "search S w n args = search S w n (args\<lparr>sa_exact_match := False\<rparr>)"
    if m: "matches = [(d, e)]" for d e
  proof -
    have q: "search_query S (heap w ! n) base (args\<lparr>sa_exact_match := False\<rparr>) = ?q"
      by (simp add: search_query_def)
    have "search S w n (args\<lparr>sa_exact_match := False\<rparr>) =
      (case result_items S ?w1 n (sa_attrlist args) [(d, e)] of
         (Inl x, w2) \<Rightarrow> (Inl x, w2)
       | (Inr res, w2) \<Rightarrow> (Inr (res, if sa_page_size args = None then sa_cookie args else c'), w2))"
      using assms(2,3) ss m q
      by (auto simp: search_def Let_def simp del: result_items.simps
          split: prod.splits sum.splits)
    then show ?thesis unfolding eq [OF m] by simp
  qed
  from p1 p2 p3 p4 show ?thesis by blast
qed

lemmas search_defs =
  search_def search_query_def search_attrset_def calculate_key_def res_key_def iter_def
  iter_args_def

theorem search_exact_match_witness:
  "fst (search example_env clean_world 0 exact_args) = Inr ([ResKey ''cn=a''], None)
   \<and> fst (search empty_env clean_world 0 exact_args) = Inl ValueError
   \<and> fst (search crowded_env clean_world 0 exact_args) = Inl ValueError"
proof -
  have h: "sa_exact_match exact_args" "ldap_session (heap clean_world ! 0)"
      "DN (heap clean_world) 0 = Inr ''dc=x''"
    by (simp_all add: exact_args_def model_defs example_defs)
  have one: "ldap_search example_env (calls clean_world)
      (search_query example_env (heap clean_world ! 0) ''dc=x'' exact_args)
        = Inr ([(''cn=a,dc=x'', [])], None)"
    by (simp add: exact_args_def search_defs model_defs example_defs)
  have none: "ldap_search empty_env (calls clean_world)
      (search_query empty_env (heap clean_world ! 0) ''dc=x'' exact_args) = Inr ([], None)"
    by (simp add: empty_env_def)
  have two: "ldap_search crowded_env (calls clean_world)
      (search_query crowded_env (heap clean_world ! 0) ''dc=x'' exact_args)
        = Inr ([(''cn=a,dc=x'', []), (''cn=b,dc=x'', [])], None)"
    by (simp add: crowded_env_def)
  have key: "calculate_key example_env (heap clean_world ! 0) ''cn=a,dc=x'' [] = Inr ''cn=a''"
    "sa_attrlist exact_args = None"
    by (simp_all add: exact_args_def search_defs model_defs example_defs)
  have r: "fst (search example_env clean_world 0 exact_args) = Inr ([ResKey ''cn=a''], None)"
    by (simp add: exact_args_def search_defs model_defs example_defs)
  show ?thesis
    using search_exact_match [OF h one] search_exact_match [OF h none]
      search_exact_match [OF h two] key r
    by simp
qed

lemma result_attrs_frame:
  "heap_frame (heap w) (heap (snd (result_attrs S w n al eattrs ra)))"
proof (induction eattrs arbitrary: w ra)
  case Nil
  show ?case by simp
next
  case (Cons kv rest)
  obtain k v where kv: "kv = (k, v)" by (cases kv)
  show ?case
  proof (cases "k \<in> set al")
    case False
    then show ?thesis unfolding kv using Cons.IH by simp
  next
    case True
    obtain r w1 where at: "attrs S w n = (r, w1)" by (cases "attrs S w n")
    have f1: "heap_frame (heap w) (heap w1)" using attrs_frame [of w S n] at by simp
    show ?thesis
    proof (cases r)
      case (Inl e)
      then show ?thesis unfolding kv using True at f1 by simp
    next
      case (Inr a)
      then show ?thesis unfolding kv using True at heap_frame_trans [OF f1 Cons.IH] by simp
    qed
  qed
qed

lemma result_items_frame:
  "heap_frame (heap w) (heap (snd (result_items S w n al ms)))"
proof (induction ms arbitrary: w)
  case Nil
  show ?case by simp
next
  case (Cons m ms)
  obtain d e where m: "m = (d, e)" by (cases m)
  show ?case
  proof (cases "calculate_key S (heap w ! n) d e")
    case (Inl x)
    then show ?thesis unfolding m by simp
  next
    case (Inr key)
    show ?thesis
    proof (cases al)
      case None
      then show ?thesis unfolding m using Inr Cons.IH [of w]
        by (auto split: prod.splits sum.splits)
    next
      case (Some l)
      obtain r w1 where ra: "result_attrs S w n l e [] = (r, w1)"
        by (cases "result_attrs S w n l e []")
      have f1: "heap_frame (heap w) (heap w1)"
        using result_attrs_frame [of w S n l e "[]"] ra by simp
      show ?thesis
        unfolding m using Inr Some ra f1 heap_frame_trans [OF f1 Cons.IH [of w1]]
        by (auto simp: Let_def split: prod.splits sum.splits)
    qed
  qed
qed

lemma search_frame: "heap_frame (heap w) (heap (snd (search S w n args)))"
proof (cases "DN (heap w) n")
  case (Inl e)
  then show ?thesis by (simp add: search_def)
next
  case (Inr base)
  let ?q = "search_query S (heap w ! n) base args"
  obtain r w1 where ss: "session_search S w ?q = (r, w1)" by (cases "session_search S w ?q")
  have h1: "heap w1 = heap w" using session_search_heap [of S w ?q] ss by simp
  have f: "heap_frame (heap w) (heap w2)" if "result_items S w1 n al ms = (x, w2)" for al ms x w2
    using result_items_frame [of w1 S n al ms] h1 that by simp
  show ?thesis
  proof (cases r)
    case (Inl e)
    then show ?thesis using Inr ss h1 by (simp add: search_def)
  next
    case r: (Inr mc)
    obtain matches rc where mc: "mc = (matches, rc)" by (cases mc)
    obtain x w2 where ri: "result_items S w1 n (sa_attrlist args) matches = (x, w2)"
      by (cases "result_items S w1 n (sa_attrlist args) matches")
    show ?thesis
      using Inr ss h1 r mc ri f [OF ri]
      by (cases x) (simp_all add: search_def Let_def del: result_items.simps)
  qed
qed

text \<open>
  Claim C2. A node without a name yields no key. For a node with a name, when the search
  for the DNs returns a result, iteration yields the keys of the result that are not in
  the set of deleted children, in the order of the result, followed by the keys in the
  set of added children; when the search fails with \<open>NO_SUCH_OBJECT\<close>, the result counts
  as empty and the added children alone are yielded. Any other failure of the search is
  raised.
\<close>

theorem iter_keys:
  "(name (heap w ! n) = None \<longrightarrow> iter S w n = (Inr [], w))
   \<and> (name (heap w ! n) \<noteq> None \<longrightarrow>
        (\<forall>res c. fst (search S w n iter_args) = Inr (res, c) \<longrightarrow>
           fst (iter S w n) =
             Inr (filter (\<lambda>key. key \<notin> set (deleted_children (heap w ! n)))
                    (map (\<lambda>r. Some (res_key r)) res)
                  @ added_children (heap w ! n)))
      \<and> (fst (search S w n iter_args) = Inl NO_SUCH_OBJECT \<longrightarrow>
           fst (iter S w n) = Inr (added_children (heap w ! n)))
      \<and> (\<forall>e. fst (search S w n iter_args) = Inl e \<and> e \<noteq> NO_SUCH_OBJECT \<longrightarrow>
           fst (iter S w n) = Inl e))"
proof -
  obtain r w1 where sr: "search S w n iter_args = (r, w1)" by (cases "search S w n iter_args")
  have fr: "heap_frame (heap w) (heap w1)" using search_frame [of w S n iter_args] sr by simp
  have ad: "added_children (heap w1 ! n) = added_children (heap w ! n)"
    and de: "deleted_children (heap w1 ! n) = deleted_children (heap w ! n)"
    using heap_frame_fields(8,9) [OF fr] by simp_all
  show ?thesis
    using sr ad de by (cases r) (auto simp: iter_def)
qed

theorem iter_keys_witness:
  "fst (iter listing_env iter_world 0) = Inr [Some ''cn=a'', Some ''cn=c'', Some ''cn=d'']
   \<and> fst (iter unsaved_env iter_world 0) = Inr [Some ''cn=d'']
   \<and> iter listing_env iter_world 1 = (Inr [], iter_world)"
proof -
  have nm: "name (heap iter_world ! 0) \<noteq> None" "name (heap iter_world ! 1) = None"
    by (simp_all add: iter_world_def new_node_def)
  have s1: "fst (search listing_env iter_world 0 iter_args)
      = Inr ([ResEntry ''cn=a'' [(''dn'', Unicode ''cn=a,dc=x'')],
              ResEntry ''cn=b'' [(''dn'', Unicode ''cn=b,dc=x'')],
              ResEntry ''cn=c'' [(''dn'', Unicode ''cn=c,dc=x'')]], None)"
    by (simp add: listing_env_def iter_world_def search_defs model_defs example_defs)
  have s2: "fst (search unsaved_env iter_world 0 iter_args) = Inl NO_SUCH_OBJECT"
    by (simp add: unsaved_env_def iter_world_def search_defs model_defs example_defs)
  have sets: "deleted_children (heap iter_world ! 0) = [Some ''cn=b'']"
    "added_children (heap iter_world ! 0) = [Some ''cn=d'']"
    by (simp_all add: iter_world_def new_node_def)
  show ?thesis
    using iter_keys [of iter_world 0 listing_env] iter_keys [of iter_world 0 unsaved_env]
      iter_keys [of iter_world 1 listing_env] nm s1 s2 sets
    by (simp add: res_key_def)
qed

lemma mod_changes_add:
  "(MOD_ADD, key, x) \<in> set (mod_changes S orgin live) \<longleftrightarrow>
     (\<exists>v. (key, v) \<in> set live \<and> map_of orgin key = None \<and> x = Some (wire_value S key v))"
proof (induction live)
  case Nil
  show ?case by simp
next
  case (Cons kv rest)
  obtain k v where kv: "kv = (k, v)" by (cases kv)
  show ?case
  proof (cases "map_of orgin k")
    case None
    then show ?thesis unfolding kv using Cons.IH by auto
  next
    case (Some ov)
    then show ?thesis unfolding kv using Cons.IH by (cases "py_eq v ov") auto
  qed
qed

lemma mod_changes_replace:
  "(MOD_REPLACE, key, x) \<in> set (mod_changes S orgin live) \<longleftrightarrow>
     (\<exists>v ov. (key, v) \<in> set live \<and> map_of orgin key = Some ov \<and> \<not> py_eq v ov
        \<and> x = Some (wire_value S key v))"
proof (induction live)
  case Nil
  show ?case by simp
next
  case (Cons kv rest)
  obtain k v where kv: "kv = (k, v)" by (cases kv)
  show ?case
  proof (cases "map_of orgin k")
    case None
    then show ?thesis unfolding kv using Cons.IH by auto
  next
    case (Some ov)
    then show ?thesis unfolding kv using Cons.IH by (cases "py_eq v ov") auto
  qed
qed

lemma mod_changes_delete: "(MOD_DELETE, key, x) \<notin> set (mod_changes S orgin live)"
  by (induction live) (auto split: option.splits if_splits)

lemma mod_changes_keys: "(op, key, x) \<in> set (mod_changes S orgin live) \<Longrightarrow> key \<in> fst ` set live"
  by (induction live) (auto split: option.splits if_splits)

lemma mod_deletes_mem:
  "(op, key, x) \<in> set (mod_deletes orgin live) \<longleftrightarrow>
     op = MOD_DELETE \<and> x = None \<and> key \<in> fst ` set orgin \<and> key \<notin> fst ` set live"
  by (auto simp: mod_deletes_def)

lemma distinct_mod_changes:
  "distinct (map fst live) \<Longrightarrow> distinct (mod_changes S orgin live)"
proof (induction live)
  case Nil
  show ?case by simp
next
  case (Cons kv rest)
  obtain key v where kv: "kv = (key, v)" by (cases kv)
  have "(op, key, x) \<notin> set (mod_changes S orgin rest)" for op x
    using Cons.prems mod_changes_keys [of op key x S orgin rest] unfolding kv by auto
  then show ?case using Cons unfolding kv by (auto split: option.splits)
qed

lemma distinct_mod_deletes:
  "distinct (map fst orgin) \<Longrightarrow> distinct (mod_deletes orgin live)"
  by (simp add: mod_deletes_def distinct_map distinct_filter inj_on_def)

lemma distinct_modlist_of:
  assumes "distinct (map fst orgin)" "distinct (map fst live)"
  shows "distinct (modlist_of S orgin live)"
proof -
  have "set (mod_deletes orgin live) \<inter> set (mod_changes S orgin live) = {}"
    using mod_changes_keys [of _ _ _ S orgin live] by (auto simp: mod_deletes_mem)
  then show ?thesis
    using assms by (simp add: modlist_of_def distinct_mod_changes distinct_mod_deletes)
qed

lemma load_calls: "\<exists>cs. calls (fst (snd (load S loc w n a))) = calls w @ cs \<and> list_all is_search cs"
proof -
  have a: "\<exists>cs. calls w = calls w @ cs \<and> list_all is_search cs" by simp
  have b: "\<exists>cs. calls w @ [Search q] = calls w @ cs \<and> list_all is_search cs" for q
    by (simp add: is_search_def)
  show ?thesis
  proof (cases "DN (heap w) n")
    case (Inl e)
    then show ?thesis using a by (simp add: load_def Let_def split_beta)
  next
    case (Inr base)
    let ?w1 = "fst (attrs_clear S loc w n a)"
    let ?q = "load_query base (reload (heap w ! n))"
    obtain r w2 where ss: "session_search S ?w1 ?q = (r, w2)" by (cases "session_search S ?w1 ?q")
    have c2: "calls w2 = calls w @ [Search ?q]"
      using session_search_calls [of S ?w1 ?q] ss by simp
    show ?thesis
    proof (cases r)
      case (Inl e)
      then show ?thesis using Inr ss c2 a b by (simp add: load_def Let_def split_beta)
    next
      case (Inr ec)
      obtain entry cookie where ec: "ec = (entry, cookie)" by (cases ec)
      show ?thesis
        using \<open>DN (heap w) n = Inr base\<close> ss Inr ec c2 a b
        by (simp add: load_def Let_def split_beta)
    qed
  qed
qed

lemma attributes_factory_calls:
  "\<exists>cs. calls (snd (attributes_factory S w n)) = calls w @ cs \<and> list_all is_search cs"
  using load_calls [of S Detached w n empty_attributes]
  by (auto simp: attributes_factory_def split: prod.splits sum.splits)

lemma attrs_calls: "\<exists>cs. calls (snd (attrs S w n)) = calls w @ cs \<and> list_all is_search cs"
proof (cases "attrs_ns (heap w ! n)")
  case (Some a)
  then show ?thesis by (simp add: attrs_def)
next
  case None
  then show ?thesis
    using attributes_factory_calls [of S w n]
    by (auto simp: attrs_def split: prod.splits sum.splits)
qed

text \<open>
  Claim C1. Let \<open>_ldap_modify\<close> load the snapshot \<open>orgin\<close> and read the live attributes
  (each attribute once in both). Then it returns, and apart from searches it makes one
  call on the session, \<open>modify\<close> with the DN of the node and the modify list, or no call
  at all when the list is empty. No operation is in the list twice, and the list holds
  exactly: a delete operation (without value) for every attribute of the snapshot that is
  not a live attribute, an add operation for every live attribute that is not in the
  snapshot, and a replace operation for every attribute in both whose values differ;
  the value of an add or replace operation is the live value, encoded unless the
  attribute is binary.
\<close>

theorem ldap_modify_operations:
  assumes "attributes_factory S w n = (Inr orgin, w1)" "attrs S w1 n = (Inr live, w2)"
    "ldap_session (heap w2 ! n)" "DN (heap w2) n = Inr d"
    "distinct (map fst (items orgin))" "distinct (map fst (items live))"
  shows
    "fst (ldap_modify S w n) = Inr ()
     \<and> (\<exists>cs. list_all is_search cs
           \<and> calls (snd (ldap_modify S w n)) =
               calls w @ cs @ (if modlist_of S (items orgin) (items live) = [] then []
                               else [Modify d (modlist_of S (items orgin) (items live))]))
     \<and> distinct (modlist_of S (items orgin) (items live))
     \<and> (\<forall>key x. (MOD_DELETE, key, x) \<in> set (modlist_of S (items orgin) (items live)) \<longleftrightarrow>
           x = None \<and> key \<in> fst ` set (items orgin) \<and> key \<notin> fst ` set (items live))
     \<and> (\<forall>key x. (MOD_ADD, key, x) \<in> set (modlist_of S (items orgin) (items live)) \<longleftrightarrow>
           (\<exists>v. map_of (items live) key = Some v \<and> key \<notin> fst ` set (items orgin)
              \<and> x = Some (if is_binary S key then v else encode v)))
     \<and> (\<forall>key x. (MOD_REPLACE, key, x) \<in> set (modlist_of S (items orgin) (items live)) \<longleftrightarrow>
           (\<exists>v ov. map_of (items live) key = Some v \<and> map_of (items orgin) key = Some ov
              \<and> \<not> py_eq v ov \<and> x = Some (if is_binary S key then v else encode v)))"
proof -
  let ?ml = "modlist_of S (items orgin) (items live)"
  have r: "ldap_modify S w n =
      (Inr (), if ?ml = [] then w2 else session_call w2 (Modify d ?ml))"
    using assms(1-4) by (simp add: ldap_modify_def Let_def)
  have lk: "map_of (items live) key = Some v \<longleftrightarrow> (key, v) \<in> set (items live)" for key v
    using assms(6) by simp
  have nk: "map_of (items orgin) key = None \<longleftrightarrow> key \<notin> fst ` set (items orgin)" for key
    by (simp add: map_of_eq_None_iff)
  have c1: "fst (ldap_modify S w n) = Inr ()" by (simp add: r)
  have c2: "\<exists>cs. list_all is_search cs
      \<and> calls (snd (ldap_modify S w n)) = calls w @ cs @ (if ?ml = [] then [] else [Modify d ?ml])"
  proof -
    obtain cs1 where cs1: "calls w1 = calls w @ cs1" "list_all is_search cs1"
      using attributes_factory_calls [of S w n] assms(1) by auto
    obtain cs2 where cs2: "calls w2 = calls w1 @ cs2" "list_all is_search cs2"
      using attrs_calls [of S w1 n] assms(2) by auto
    have "list_all is_search (cs1 @ cs2)" using cs1 cs2 by simp
    moreover have "calls (snd (ldap_modify S w n))
        = calls w @ (cs1 @ cs2) @ (if ?ml = [] then [] else [Modify d ?ml])"
      using cs1 cs2 by (simp add: r session_call_def)
    ultimately show ?thesis by blast
  qed
  have c3: "distinct ?ml" by (rule distinct_modlist_of [OF assms(5,6)])
  have c4: "(MOD_DELETE, key, x) \<in> set ?ml \<longleftrightarrow>
      x = None \<and> key \<in> fst ` set (items orgin) \<and> key \<notin> fst ` set (items live)" for key x
    by (simp add: modlist_of_def mod_deletes_mem mod_changes_delete)
  have c5: "(MOD_ADD, key, x) \<in> set ?ml \<longleftrightarrow>
      (\<exists>v. map_of (items live) key = Some v \<and> key \<notin> fst ` set (items orgin)
         \<and> x = Some (if is_binary S key then v else encode v))" for key x
    by (auto simp: modlist_of_def mod_deletes_mem mod_changes_add lk nk wire_value_def)
  have c6: "(MOD_REPLACE, key, x) \<in> set ?ml \<longleftrightarrow>
      (\<exists>v ov. map_of (items live) key = Some v \<and> map_of (items orgin) key = Some ov
         \<and> \<not> py_eq v ov \<and> x = Some (if is_binary S key then v else encode v))" for key x
    by (auto simp: modlist_of_def mod_deletes_mem mod_changes_replace lk wire_value_def)
  from c1 c2 c3 c4 c5 c6 show ?thesis by blast
qed

theorem ldap_modify_operations_witness:
  "fst (ldap_modify modify_env edited_world 1) = Inr ()
   \<and> modlist_of modify_env (items persisted_attrs) (items edited_attrs) =
       [(MOD_DELETE, ''title'', None), (MOD_REPLACE, ''sn'', Some (Str ''new'')),
        (MOD_ADD, ''mail'', Some (Str ''y'')), (MOD_ADD, ''jpegPhoto'', Some (Str ''bytes''))]
   \<and> distinct (modlist_of modify_env (items persisted_attrs) (items edited_attrs))
   \<and> (\<exists>cs. list_all is_search cs \<and>
         calls (snd (ldap_modify modify_env edited_world 1)) =
           calls edited_world @ cs @
           [Modify ''cn=a,dc=x'' (modlist_of modify_env (items persisted_attrs) (items edited_attrs))])"
proof -
  let ?w1 = "snd (attributes_factory modify_env edited_world 1)"
  have h1: "attributes_factory modify_env edited_world 1 = (Inr persisted_attrs, ?w1)"
    by (simp add: modify_env_def edited_world_def edited_attrs_def persisted_attrs_def
        model_defs example_defs)
  have h2: "attrs modify_env ?w1 1 = (Inr edited_attrs, ?w1)"
    by (simp add: modify_env_def edited_world_def edited_attrs_def model_defs example_defs)
  have h3: "ldap_session (heap ?w1 ! 1)" "DN (heap ?w1) 1 = Inr ''cn=a,dc=x''"
    by (simp_all add: modify_env_def edited_world_def edited_attrs_def model_defs example_defs)
  have h4: "distinct (map fst (items persisted_attrs))"
    and h5: "distinct (map fst (items edited_attrs))"
    by (simp_all add: persisted_attrs_def edited_attrs_def)
  have ml: "modlist_of modify_env (items persisted_attrs) (items edited_attrs) =
       [(MOD_DELETE, ''title'', None), (MOD_REPLACE, ''sn'', Some (Str ''new'')),
        (MOD_ADD, ''mail'', Some (Str ''y'')), (MOD_ADD, ''jpegPhoto'', Some (Str ''bytes''))]"
    by (simp add: modlist_of_def mod_deletes_def wire_value_def is_binary_def modify_env_def
        persisted_attrs_def edited_attrs_def)
  have ne: "modlist_of modify_env (items persisted_attrs) (items edited_attrs) \<noteq> []"
    by (simp add: ml)
  show ?thesis
    using ldap_modify_operations [OF h1 h2 h3 h4 h5] ml ne by simp
qed

section \<open>Properties of deletion and commit\<close>

lemma no_new_add_refl [simp]: "no_new_add h h"
  by (simp add: no_new_add_def)

lemma no_new_add_trans: "no_new_add h h' \<Longrightarrow> no_new_add h' h'' \<Longrightarrow> no_new_add h h''"
  by (simp add: no_new_add_def)

lemma keeps_refl [simp]: "keeps h h"
  by (auto simp: keeps_def)

lemma keeps_trans:
  assumes "keeps h h'" "keeps h' h''"
  shows "keeps h h''"
  unfolding keeps_def
proof (intro conjI allI impI)
  show "length h \<le> length h''" using assms by (simp add: keeps_def)
  show "storage_wf h''" if "storage_wf h" using assms that by (simp add: keeps_def)
  fix m
  { assume m: "m < length h"
    then have m': "m < length h'" using assms(1) by (simp add: keeps_def)
    show "name (h'' ! m) = name (h ! m)" "parent (h'' ! m) = parent (h ! m)"
      "added_children (h'' ! m) = added_children (h ! m)"
      using assms m m' by (simp_all add: keeps_def)
    show "action (h ! m) = Some ACTION_ADD" if "action (h'' ! m) = Some ACTION_ADD"
      using assms m m' that by (simp add: keeps_def) }
  { assume m: "length h \<le> m \<and> m < length h''"
    show "action (h'' ! m) \<noteq> Some ACTION_ADD"
    proof (cases "m < length h'")
      case True
      then have "action (h' ! m) \<noteq> Some ACTION_ADD" using assms(1) m by (simp add: keeps_def)
      then show ?thesis using assms(2) True by (auto simp: keeps_def)
    next
      case False
      then show ?thesis using assms(2) m by (simp add: keeps_def)
    qed }
qed

lemma quiet_keeps:
  assumes "heap_frame h h'" "no_new_add h h'"
  shows "keeps h h'"
  using assms
  by (auto simp: keeps_def heap_frame_def node_frame_def no_new_add_def storage_wf_def)

lemma keeps_stale:
  assumes "keeps h h'" "stale_added p k h"
  shows "stale_added p k h'"
  unfolding stale_added_def
proof (intro conjI allI impI)
  have p: "p < length h" using assms(2) by (simp add: stale_added_def)
  show "p < length h'" using assms(1) p by (simp add: keeps_def)
  show "Some k \<in> set (added_children (h' ! p))"
    using assms p by (simp add: keeps_def stale_added_def)
  fix m
  assume m: "m < length h'" and pn: "parent (h' ! m) = Some p \<and> name (h' ! m) = Some k"
  show "action (h' ! m) \<noteq> Some ACTION_ADD"
  proof (cases "m < length h")
    case True
    then show ?thesis using assms pn by (auto simp: keeps_def stale_added_def)
  next
    case False
    then show ?thesis using assms(1) m by (simp add: keeps_def)
  qed
qed

lemma no_new_add_update:
  "(action x = Some ACTION_ADD \<longrightarrow> action (h ! n) = Some ACTION_ADD) \<Longrightarrow> no_new_add h (h[n := x])"
  by (auto simp: no_new_add_def nth_update_any)

lemma no_new_add_set_changed [simp]: "no_new_add h (flags_after h n v)"
  by (simp add: no_new_add_def)

lemma no_new_add_put_attrs [simp]: "no_new_add (heap w) (heap (put_attrs loc n a w))"
  by (simp add: no_new_add_def)

lemma set_attrs_modified_no_new_add:
  "no_new_add (heap w) (heap (fst (set_attrs_modified loc w n a)))"
  by (simp add: no_new_add_def set_attrs_modified_action)

lemma attrs_setitem_no_new_add:
  "no_new_add (heap w) (heap (fst (attrs_setitem S loc w n a key val)))"
  unfolding attrs_setitem_eq
  using no_new_add_trans [OF no_new_add_put_attrs set_attrs_modified_no_new_add] .

lemma delete_present_no_new_add:
  "no_new_add (heap w) (heap (fst (delete_present loc w n a key)))"
  unfolding delete_present_eq
  using no_new_add_trans [OF no_new_add_put_attrs set_attrs_modified_no_new_add] .

lemma clear_keys_no_new_add:
  "no_new_add (heap w) (heap (fst (clear_keys loc w n a keys)))"
proof (induction keys arbitrary: w a)
  case Nil
  show ?case by simp
next
  case (Cons key rest)
  show ?case
    using no_new_add_trans [OF delete_present_no_new_add Cons.IH]
    by (simp add: split_beta)
qed

lemma attrs_clear_no_new_add [simp]:
  "no_new_add (heap w) (heap (fst (attrs_clear S loc w n a)))"
  by (simp add: attrs_clear_def clear_keys_no_new_add)

lemma load_items_no_new_add:
  "no_new_add (heap w) (heap (fst (load_items S loc w n a eattrs)))"
proof (induction eattrs arbitrary: w a)
  case Nil
  show ?case by simp
next
  case (Cons kv rest)
  obtain key item where kv: "kv = (key, item)" by (cases kv)
  show ?case
    unfolding kv
    using no_new_add_trans [OF attrs_setitem_no_new_add Cons.IH]
    by (simp add: split_beta)
qed

lemma load_unset_no_new_add:
  "no_new_add (heap w) (heap (fst (snd (load_unset loc w n a))))"
proof -
  let ?w1 = "put_attrs loc n (a\<lparr>attrs_changed := Some False\<rparr>) w"
  have f1: "no_new_add (heap w) (heap ?w1)" by simp
  have f2: "no_new_add (heap w1) (heap (update_node p (\<lambda>pn. pn\<lparr>modified_children := s\<rparr>) w1))"
    for w1 p s by (simp add: no_new_add_update)
  have f3: "no_new_add (heap w2)
      (flags_after (heap (update_node n (\<lambda>nd. nd\<lparr>action := None\<rparr>) w2)) n False)" for w2
    using no_new_add_trans [OF _ no_new_add_set_changed]
    by (simp add: no_new_add_update)
  show ?thesis
    using f1 no_new_add_trans [OF f1 f3] no_new_add_trans [OF no_new_add_trans [OF f1 f2] f3]
    by (auto simp: load_unset_def Let_def split_beta split: option.splits sum.splits)
qed

lemma load_no_new_add: "no_new_add (heap w) (heap (fst (snd (load S loc w n a))))"
proof -
  let ?a1 = "snd (attrs_clear S loc w n a)"
  let ?w1 = "fst (attrs_clear S loc w n a)"
  have f1: "no_new_add (heap w) (heap ?w1)" by simp
  have f3: "no_new_add (heap w)
      (heap (fst (snd (load_unset loc (fst (load_items S loc w2 n ?a1 es)) n
                         (snd (load_items S loc w2 n ?a1 es))))))"
    if "heap w2 = heap ?w1" for w2 es
  proof -
    have a: "no_new_add (heap w) (heap w2)" using f1 that by simp
    have b: "no_new_add (heap w2) (heap (fst (load_items S loc w2 n ?a1 es)))"
      by (rule load_items_no_new_add)
    have c: "no_new_add (heap (fst (load_items S loc w2 n ?a1 es)))
        (heap (fst (snd (load_unset loc (fst (load_items S loc w2 n ?a1 es)) n
                         (snd (load_items S loc w2 n ?a1 es))))))"
      by (rule load_unset_no_new_add)
    show ?thesis by (rule no_new_add_trans [OF no_new_add_trans [OF a b] c])
  qed
  show ?thesis
  proof (cases "DN (heap w) n")
    case (Inl e)
    then show ?thesis using f1 by (simp add: load_def Let_def split_beta)
  next
    case (Inr base)
    obtain r w2 where ss: "session_search S ?w1 (load_query base (reload (heap w ! n))) = (r, w2)"
      by (cases "session_search S ?w1 (load_query base (reload (heap w ! n)))")
    have h2: "heap w2 = heap ?w1"
      using session_search_heap [of S ?w1 "load_query base (reload (heap w ! n))"] ss by simp
    show ?thesis
    proof (cases r)
      case (Inl e)
      then show ?thesis using Inr ss h2 f1 by (simp add: load_def Let_def split_beta)
    next
      case (Inr ec)
      obtain entry cookie where ec: "ec = (entry, cookie)" by (cases ec)
      show ?thesis
        using \<open>DN (heap w) n = Inr base\<close> ss Inr ec h2 f1 f3 [OF h2]
        by (simp add: load_def Let_def split_beta)
    qed
  qed
qed

lemma attributes_factory_quiet:
  "heap_frame (heap w) (heap (snd (attributes_factory S w n)))"
  "no_new_add (heap w) (heap (snd (attributes_factory S w n)))"
  using load_frame [of w S Detached n empty_attributes]
    load_no_new_add [of w S Detached n empty_attributes]
  by (auto simp: attributes_factory_def split: prod.splits sum.splits)

lemma attrs_no_new_add: "no_new_add (heap w) (heap (snd (attrs S w n)))"
proof (cases "attrs_ns (heap w ! n)")
  case (Some a)
  then show ?thesis by (simp add: attrs_def)
next
  case None
  obtain r w1 where af: "attributes_factory S w n = (r, w1)"
    by (cases "attributes_factory S w n")
  have f: "no_new_add (heap w) (heap w1)" using attributes_factory_quiet(2) [of w S n] af by simp
  have f': "no_new_add (heap w1) (heap (update_node n (\<lambda>nd. nd\<lparr>attrs_ns := Some a1\<rparr>) w1))" for a1
    by (simp add: no_new_add_update)
  show ?thesis
    using None af f no_new_add_trans [OF f f']
    by (cases r) (simp_all add: attrs_def)
qed

lemma attrs_keeps: "keeps (heap w) (heap (snd (attrs S w n)))"
  by (rule quiet_keeps [OF attrs_frame attrs_no_new_add])

lemma attributes_factory_keeps: "keeps (heap w) (heap (snd (attributes_factory S w n)))"
  by (rule quiet_keeps [OF attributes_factory_quiet])

lemma heap_session_call [simp]: "heap (session_call w c) = heap w"
  by (simp add: session_call_def)

lemma ldap_add_keeps: "keeps (heap w) (heap (snd (ldap_add S w n)))"
  using attrs_keeps [of w S n]
  by (auto simp: ldap_add_def split: prod.splits sum.splits)

lemma ldap_modify_keeps: "keeps (heap w) (heap (snd (ldap_modify S w n)))"
proof -
  obtain r w1 where af: "attributes_factory S w n = (r, w1)"
    by (cases "attributes_factory S w n")
  have k1: "keeps (heap w) (heap w1)" using attributes_factory_keeps [of w S n] af by simp
  obtain r2 w2 where at: "attrs S w1 n = (r2, w2)" by (cases "attrs S w1 n")
  have k2: "keeps (heap w) (heap w2)"
    using keeps_trans [OF k1 attrs_keeps [of w1 S n]] at by simp
  show ?thesis
    using af at k1 k2
    by (cases r; cases r2) (auto simp: ldap_modify_def Let_def split: sum.splits)
qed

lemma set_odict_del: "set (odict_del k d) \<subseteq> set d"
  by (auto simp: odict_del_def)

lemma keeps_storage_shrink:
  assumes "set s \<subseteq> set (storage (h ! p))"
  shows "keeps h (h[p := (h ! p)\<lparr>storage := s\<rparr>])"
  using assms
  by (auto simp: keeps_def storage_wf_def nth_update_any)

lemma ldap_delete_keeps: "keeps (heap w) (heap (snd (ldap_delete S w n)))"
  using keeps_storage_shrink [OF set_odict_del]
  by (auto simp: ldap_delete_def Let_def split: option.splits sum.splits)

lemma odict_set_mem: "(j, c) \<in> set (odict_set k v d) \<Longrightarrow> c = v \<or> (j, c) \<in> set d"
  by (induction d) (auto split: if_splits)

lemma set_odict_set: "snd ` set (odict_set k v d) \<subseteq> insert v (snd ` set d)"
  using odict_set_mem [of _ _ k v d] by force

lemma getitem_keeps:
  assumes "n < length (heap w)"
  shows "keeps (heap w) (heap (snd (getitem S w n key)))"
proof -
  have grow: "keeps h ((h @ [v])[n := ((h @ [v]) ! n)\<lparr>storage := odict_set k (length h) (storage ((h @ [v]) ! n))\<rparr>])"
    if "n < length h" "action v \<noteq> Some ACTION_ADD" "storage v = []" for h :: heap and v k
    unfolding keeps_def
  proof (intro conjI allI impI)
    let ?h' = "(h @ [v])[n := ((h @ [v]) ! n)\<lparr>storage := odict_set k (length h) (storage ((h @ [v]) ! n))\<rparr>]"
    show "length h \<le> length ?h'" by simp
    show "storage_wf ?h'" if wf: "storage_wf h"
      unfolding storage_wf_def
    proof (intro allI impI ballI)
      fix m c
      assume m: "m < length ?h'" and c: "c \<in> snd ` set (storage (?h' ! m))"
      show "c < length ?h'"
      proof (cases "m = n")
        case True
        then have "c \<in> insert (length h) (snd ` set (storage (h ! n)))"
          using c \<open>n < length h\<close> set_odict_set [of k "length h" "storage (h ! n)"]
          by (auto simp: nth_append)
        then show ?thesis using wf \<open>n < length h\<close> by (auto simp: storage_wf_def less_Suc_eq)
      next
        case False
        show ?thesis
        proof (cases "m < length h")
          case True
          then have "c \<in> snd ` set (storage (h ! m))" using c False by (simp add: nth_append)
          then show ?thesis using wf True by (auto simp: storage_wf_def less_Suc_eq)
        next
          case False
          then have "m = length h" using m by simp
          then show ?thesis using c \<open>m \<noteq> n\<close> \<open>storage v = []\<close> by simp
        qed
      qed
    qed
    fix m
    { assume "m < length h"
      then show "name (?h' ! m) = name (h ! m)" "parent (?h' ! m) = parent (h ! m)"
        "added_children (?h' ! m) = added_children (h ! m)"
        by (simp_all add: nth_update_any nth_append)
      show "action (h ! m) = Some ACTION_ADD" if "action (?h' ! m) = Some ACTION_ADD"
        using that \<open>m < length h\<close> by (simp add: nth_update_any nth_append split: if_splits) }
    { assume "length h \<le> m \<and> m < length ?h'"
      then have "m = length h" by simp
      then show "action (?h' ! m) \<noteq> Some ACTION_ADD"
        using \<open>n < length h\<close> \<open>action v \<noteq> Some ACTION_ADD\<close> by (simp add: nth_update_any) }
  qed
  have ss: "heap (snd (session_search S w q)) = heap w" for q by simp
  show ?thesis
  proof (cases "case key of None \<Rightarrow> None | Some k \<Rightarrow> map_of (storage (heap w ! n)) k")
    case (Some c)
    then show ?thesis by (simp add: getitem_def)
  next
    case None
    show ?thesis
    proof (cases "ldap_session (heap w ! n)")
      case False
      then show ?thesis using None by (simp add: getitem_def)
    next
      case session: True
    show ?thesis
    proof (cases "child_dn (heap w ! n) key")
      case (Inl e)
      then show ?thesis using None session by (simp add: getitem_def)
    next
      case (Inr base)
      obtain r w1 where s1: "session_search S w (probe_query base) = (r, w1)"
        by (cases "session_search S w (probe_query base)")
      have h1: "heap w1 = heap w" using ss [of "probe_query base"] s1 by simp
      show ?thesis
      proof (cases r)
        case (Inl e)
        then show ?thesis using None session Inr s1 h1 by (simp add: getitem_def)
      next
        case r: (Inr rc)
        obtain res cookie where rc: "rc = (res, cookie)" by (cases rc)
        show ?thesis
        proof (cases res)
          case Nil
          then show ?thesis using None session Inr s1 h1 r rc by (simp add: getitem_def)
        next
          case (Cons e others)
          obtain d ea where e: "e = (d, ea)" by (cases e)
          show ?thesis
            using None session Inr s1 h1 r rc Cons e assms
              grow [of "heap w" "new_node\<lparr>name := key, parent := Some n, dn := Some d,
                         ldap_session := True\<rparr>" "the key"]
            by (simp add: getitem_def Let_def new_node_def)
        qed
      qed
    qed
    qed
  qed
qed

lemma keeps_length: "keeps h h' \<Longrightarrow> length h \<le> length h'"
  by (simp add: keeps_def)

lemma keeps_wf: "keeps h h' \<Longrightarrow> storage_wf h \<Longrightarrow> storage_wf h'"
  by (simp add: keeps_def)

lemma getitem_valid:
  assumes "n < length (heap w)" "storage_wf (heap w)" "getitem S w n key = (Inr c, w')"
  shows "c < length (heap w')"
proof (cases "case key of None \<Rightarrow> None | Some k \<Rightarrow> map_of (storage (heap w ! n)) k")
  case (Some c0)
  then obtain k where "key = Some k" "map_of (storage (heap w ! n)) k = Some c0"
    by (cases key) auto
  then have "c0 \<in> snd ` set (storage (heap w ! n))"
    by (metis map_of_SomeD snd_conv image_eqI)
  then have "c0 < length (heap w)" using assms(1,2) by (auto simp: storage_wf_def)
  then show ?thesis using Some assms(3) by (simp add: getitem_def)
next
  case None
  then show ?thesis
    using assms(3)
    by (auto simp: getitem_def Let_def
        split: sum.splits prod.splits list.splits if_splits)
qed

lemma deleted_nodes_keeps:
  assumes "n < length (heap w)"
  shows "keeps (heap w) (heap (snd (deleted_nodes S w n keys)))"
  using assms
proof (induction keys arbitrary: w)
  case Nil
  show ?case by simp
next
  case (Cons key keys)
  obtain r w1 where g: "getitem S w n key = (r, w1)" by (cases "getitem S w n key")
  have k1: "keeps (heap w) (heap w1)" using getitem_keeps [OF Cons.prems, of S key] g by simp
  have n1: "n < length (heap w1)" using keeps_length [OF k1] Cons.prems by simp
  have k2: "keeps (heap w) (heap (snd (deleted_nodes S w1 n keys)))"
    by (rule keeps_trans [OF k1 Cons.IH [OF n1]])
  show ?case
    using g k1 k2 by (cases r) (auto split: prod.splits sum.splits)
qed

lemma deleted_nodes_valid:
  assumes "n < length (heap w)" "storage_wf (heap w)"
    "deleted_nodes S w n keys = (Inr cs, w')"
  shows "\<forall>c \<in> set cs. c < length (heap w')"
  using assms
proof (induction keys arbitrary: w cs w')
  case Nil
  then show ?case by simp
next
  case (Cons key keys)
  obtain r w1 where g: "getitem S w n key = (r, w1)" by (cases "getitem S w n key")
  obtain c where r: "r = Inr c" using Cons.prems(3) g by (cases r) auto
  obtain r2 w2 where d: "deleted_nodes S w1 n keys = (r2, w2)"
    by (cases "deleted_nodes S w1 n keys")
  obtain cs' where r2: "r2 = Inr cs'" using Cons.prems(3) g r d by (cases r2) auto
  have res: "cs = c # cs'" "w' = w2" using Cons.prems(3) g r d r2 by simp_all
  have k1: "keeps (heap w) (heap w1)" using getitem_keeps [OF Cons.prems(1), of S key] g by simp
  have n1: "n < length (heap w1)" using keeps_length [OF k1] Cons.prems(1) by simp
  have wf1: "storage_wf (heap w1)" by (rule keeps_wf [OF k1 Cons.prems(2)])
  have c1: "c < length (heap w1)"
    using getitem_valid [OF Cons.prems(1,2)] g r by simp
  have k2: "keeps (heap w1) (heap w2)" using deleted_nodes_keeps [OF n1, of S keys] d by simp
  have "c < length (heap w2)" using c1 keeps_length [OF k2] by simp
  moreover have "\<forall>c \<in> set cs'. c < length (heap w2)"
    using Cons.IH [OF n1 wf1] d r2 by simp
  ultimately show ?case using res by simp
qed

lemma keeps_commit_inv: "keeps h h' \<Longrightarrow> commit_inv p k h \<Longrightarrow> commit_inv p k h'"
  by (simp add: commit_inv_def keeps_wf keeps_stale)

lemma keeps_update_other:
  assumes "name x = name (h ! q)" "parent x = parent (h ! q)"
    "added_children x = added_children (h ! q)" "storage x = storage (h ! q)"
    "action x = Some ACTION_ADD \<longrightarrow> action (h ! q) = Some ACTION_ADD"
  shows "keeps h (h[q := x])"
  using assms by (auto simp: keeps_def storage_wf_def nth_update_any)

lemma remove_modified_keeps:
  assumes "remove_from_parent modified_children (\<lambda>s nd. nd\<lparr>modified_children := s\<rparr>) w n = Inr w1"
  shows "keeps (heap w) (heap w1)"
  using assms
  by (auto simp: remove_from_parent_def split: option.splits sum.splits
      intro!: keeps_update_other)

lemma remove_deleted_keeps:
  assumes "remove_from_parent deleted_children (\<lambda>s nd. nd\<lparr>deleted_children := s\<rparr>) w n = Inr w1"
  shows "keeps (heap w) (heap w1)"
  using assms
  by (auto simp: remove_from_parent_def split: option.splits sum.splits
      intro!: keeps_update_other)

lemma remove_added_inv:
  assumes "remove_from_parent added_children (\<lambda>s nd. nd\<lparr>added_children := s\<rparr>) w n = Inr w1"
    "n < length (heap w)" "action (heap w ! n) = Some ACTION_ADD" "commit_inv p k (heap w)"
  shows "commit_inv p k (heap w1) \<and> length (heap w1) = length (heap w)"
proof -
  obtain q s where q: "parent (heap w ! n) = Some q"
    and s: "set_remove (name (heap w ! n)) (added_children (heap w ! q)) = Inr s"
    and w1: "w1 = update_node q (\<lambda>nd. nd\<lparr>added_children := s\<rparr>) w"
    using assms(1) by (auto simp: remove_from_parent_def split: option.splits sum.splits)
  have sv: "s = removeAll (name (heap w ! n)) (added_children (heap w ! q))"
    using s by (auto simp: set_remove_def split: if_splits)
  have st: "stale_added p k (heap w)" and wf: "storage_wf (heap w)"
    using assms(4) by (simp_all add: commit_inv_def)
  have ne: "\<not> (q = p \<and> name (heap w ! n) = Some k)"
    using st assms(2,3) q by (auto simp: stale_added_def)
  have "stale_added p k (heap w1)"
    using st ne unfolding w1 sv stale_added_def
    by (auto simp: nth_update_any)
  moreover have "storage_wf (heap w1)"
    using wf unfolding w1 storage_wf_def by (auto simp: nth_update_any)
  ultimately show ?thesis by (simp add: commit_inv_def w1)
qed

lemma carried_keeps:
  "commit_inv p k (heap w) \<Longrightarrow> keeps (heap w) (heap w') \<Longrightarrow> carried p k w w'"
  by (simp add: carried_def keeps_commit_inv keeps_length)

lemma carried_trans:
  "carried p k w w1 \<Longrightarrow> carried p k w1 w2 \<Longrightarrow> carried p k w w2"
  by (simp add: carried_def)

lemma call_action_carried:
  assumes "n < length (heap w)" "commit_inv p k (heap w)" "action (heap w ! n) = Some act"
  shows "carried p k w (snd (call_action S w n act))"
proof (cases act)
  case ACTION_ADD
  show ?thesis
  proof (cases "remove_from_parent added_children (\<lambda>s nd. nd\<lparr>added_children := s\<rparr>) w n")
    case (Inl e)
    then show ?thesis using ACTION_ADD assms(2) by (simp add: call_action_def carried_def)
  next
    case (Inr w1)
    have i1: "commit_inv p k (heap w1)" "length (heap w1) = length (heap w)"
      using remove_added_inv [OF Inr assms(1) _ assms(2)] assms(3) ACTION_ADD by simp_all
    have "carried p k w1 (snd (ldap_add S w1 n))"
      by (rule carried_keeps [OF i1(1) ldap_add_keeps])
    then show ?thesis using ACTION_ADD Inr i1 by (simp add: call_action_def carried_def)
  qed
next
  case ACTION_MODIFY
  have direct: "carried p k w (snd (ldap_modify S w n))"
    by (rule carried_keeps [OF assms(2) ldap_modify_keeps])
  show ?thesis
  proof (cases "parent (heap w ! n)")
    case None
    then show ?thesis using ACTION_MODIFY direct by (simp add: call_action_def)
  next
    case (Some q)
    show ?thesis
    proof (cases "remove_from_parent modified_children (\<lambda>s nd. nd\<lparr>modified_children := s\<rparr>) w n")
      case (Inl e)
      then show ?thesis
        using ACTION_MODIFY Some assms(2) by (simp add: call_action_def carried_def)
    next
      case (Inr w1)
      have k1: "keeps (heap w) (heap w1)" by (rule remove_modified_keeps [OF Inr])
      have "keeps (heap w) (heap (snd (ldap_modify S w1 n)))"
        by (rule keeps_trans [OF k1 ldap_modify_keeps])
      then show ?thesis
        using ACTION_MODIFY Some Inr carried_keeps [OF assms(2)]
        by (simp add: call_action_def)
    qed
  qed
next
  case ACTION_DELETE
  show ?thesis
  proof (cases "remove_from_parent deleted_children (\<lambda>s nd. nd\<lparr>deleted_children := s\<rparr>) w n")
    case (Inl e)
    then show ?thesis using ACTION_DELETE assms(2) by (simp add: call_action_def carried_def)
  next
    case (Inr w1)
    have k1: "keeps (heap w) (heap w1)" by (rule remove_deleted_keeps [OF Inr])
    have "keeps (heap w) (heap (snd (ldap_delete S w1 n)))"
      by (rule keeps_trans [OF k1 ldap_delete_keeps])
    then show ?thesis
      using ACTION_DELETE Inr carried_keeps [OF assms(2)]
      by (simp add: call_action_def)
  qed
qed

lemma call_self_carried:
  assumes "n < length (heap w)" "commit_inv p k (heap w)"
  shows "carried p k w (snd (call_self S w n))"
proof (cases "changed (heap w ! n) \<and> action (heap w ! n) \<noteq> None")
  case False
  then show ?thesis using assms(2) by (auto simp: call_self_def carried_def)
next
  case True
  then obtain act where act: "action (heap w ! n) = Some act" by auto
  obtain r w1 where ca: "call_action S w n act = (r, w1)" by (cases "call_action S w n act")
  have c1: "carried p k w w1" using call_action_carried [OF assms act, of S] ca by simp
  show ?thesis
  proof (cases r)
    case (Inl e)
    then show ?thesis using True act ca c1 by (simp add: call_self_def)
  next
    case (Inr u)
    let ?w2 = "update_node n (\<lambda>nd. nd\<lparr>attrs_ns := map_option (\<lambda>a. a\<lparr>attrs_changed := Some False\<rparr>)
                                                  (attrs_ns nd)\<rparr>) w1"
    let ?w3 = "?w2\<lparr>heap := flags_after (heap ?w2) n False\<rparr>"
    let ?w4 = "update_node n (\<lambda>nd. nd\<lparr>action := None\<rparr>) ?w3"
    have k2: "keeps (heap w1) (heap ?w2)" by (simp add: keeps_update_other)
    have k3: "keeps (heap ?w2) (heap ?w3)"
      using quiet_keeps [OF heap_frame_set_changed no_new_add_set_changed] by simp
    have k4: "keeps (heap ?w3) (heap ?w4)" by (simp add: keeps_update_other)
    have "keeps (heap w1) (heap ?w3)" by (rule keeps_trans [OF k2 k3])
    then have "carried p k w1 ?w3" using c1 by (simp add: carried_def keeps_commit_inv keeps_length)
    then have c3: "carried p k w ?w3" by (rule carried_trans [OF c1])
    have "keeps (heap w1) (heap ?w4)" by (rule keeps_trans [OF keeps_trans [OF k2 k3] k4])
    then have "carried p k w1 ?w4" using c1 by (simp add: carried_def keeps_commit_inv keeps_length)
    then have c4: "carried p k w ?w4" by (rule carried_trans [OF c1])
    obtain r' h3 where sc: "set_changed (heap ?w2) n False = (r', h3)"
      by (cases "set_changed (heap ?w2) n False")
    then have h3: "flags_after (heap ?w2) n False = h3" by simp
    have c3': "carried p k w (?w2\<lparr>heap := h3\<rparr>)"
      and c4': "carried p k w (update_node n (\<lambda>nd. nd\<lparr>action := None\<rparr>) (?w2\<lparr>heap := h3\<rparr>))"
      using c3 c4 unfolding h3 by simp_all
    have "call_self S w n =
        (case r' of Inl e \<Rightarrow> (Inl e, ?w2\<lparr>heap := h3\<rparr>)
         | Inr u' \<Rightarrow> (Inr (), update_node n (\<lambda>nd. nd\<lparr>action := None\<rparr>) (?w2\<lparr>heap := h3\<rparr>)))"
      using True act ca Inr sc by (simp add: call_self_def Let_def split: sum.splits)
    then show ?thesis using c3' c4' by (cases r') simp_all
  qed
qed

lemma carried_refl: "commit_inv p k (heap w) \<Longrightarrow> carried p k w w"
  by (simp add: carried_def)

lemma carried_inv: "carried p k w w' \<Longrightarrow> commit_inv p k (heap w')"
  and carried_length: "carried p k w w' \<Longrightarrow> length (heap w) \<le> length (heap w')"
  by (simp_all add: carried_def)

lemma storage_ids_valid:
  assumes "storage_wf h" "n < length h"
  shows "\<forall>m \<in> set (map snd (storage (h ! n))). m < length h"
  using assms by (auto simp: storage_wf_def)

lemma call_carried:
  "\<forall>r w'. call fuel S w n = Some (r, w') \<longrightarrow> n < length (heap w) \<longrightarrow>
      commit_inv p k (heap w) \<longrightarrow> carried p k w w'"
  and call_nodes_carried:
  "\<forall>r w'. call_nodes fuel S w ms = Some (r, w') \<longrightarrow> (\<forall>m \<in> set ms. m < length (heap w)) \<longrightarrow>
      commit_inv p k (heap w) \<longrightarrow> carried p k w w'"
proof (induction fuel S w n and fuel S w ms rule: call_call_nodes.induct)
  case (1 S w n)
  show ?case by simp
next
  case (2 fuel S w n)
  show ?case
  proof (intro allI impI)
    fix r w'
    assume res: "call (Suc fuel) S w n = Some (r, w')"
      and n: "n < length (heap w)" and inv: "commit_inv p k (heap w)"
    obtain x y where cs: "call_self S w n = (x, y)" by (cases "call_self S w n")
    have c1: "carried p k w y" using call_self_carried [OF n inv, of S] cs by simp
    show "carried p k w w'"
    proof (cases x)
      case (Inl e)
      then show ?thesis using res cs c1 by simp
    next
      case (Inr b)
      obtain xa ya where dn: "deleted_nodes S y n (deleted_children (heap y ! n)) = (xa, ya)"
        by (cases "deleted_nodes S y n (deleted_children (heap y ! n))")
      have ny: "n < length (heap y)" using carried_length [OF c1] n by simp
      have invy: "commit_inv p k (heap y)" by (rule carried_inv [OF c1])
      have k2: "keeps (heap y) (heap ya)"
        using deleted_nodes_keeps [OF ny, of S "deleted_children (heap y ! n)"] dn by simp
      have c2: "carried p k w ya"
        by (rule carried_trans [OF c1 carried_keeps [OF invy k2]])
      show ?thesis
      proof (cases xa)
        case (Inl e)
        then show ?thesis using res cs Inr dn c2 by simp
      next
        case xa: (Inr ba)
        have rest: "call_nodes fuel S ya (map snd (storage (heap ya ! n)) @ ba) = Some (r, w')"
          using res cs Inr dn xa by simp
        have invya: "commit_inv p k (heap ya)" by (rule carried_inv [OF c2])
        have nya: "n < length (heap ya)" using keeps_length [OF k2] ny by simp
        have v1: "\<forall>m \<in> set (map snd (storage (heap ya ! n))). m < length (heap ya)"
          using storage_ids_valid [OF _ nya] invya by (simp add: commit_inv_def)
        have v2: "\<forall>c \<in> set ba. c < length (heap ya)"
          using deleted_nodes_valid [OF ny _ dn [unfolded xa]] invy by (simp add: commit_inv_def)
        have "carried p k ya w'"
          using "2.IH" [OF cs [symmetric] Inr dn [symmetric] xa] rest v1 v2 invya by auto
        then show ?thesis by (rule carried_trans [OF c2])
      qed
    qed
  qed
next
  case (3 fuel S w)
  show ?case by (simp add: carried_refl)
next
  case (4 fuel S w m ms)
  show ?case
  proof (intro allI impI)
    fix r w'
    assume res: "call_nodes fuel S w (m # ms) = Some (r, w')"
      and valid: "\<forall>m \<in> set (m # ms). m < length (heap w)"
      and inv: "commit_inv p k (heap w)"
    show "carried p k w w'"
    proof (cases "changed (heap w ! m)")
      case False
      then have "call_nodes fuel S w ms = Some (r, w')" using res by simp
      then show ?thesis using "4.IH"(3) [OF False] valid inv by simp
    next
      case True
      obtain x y where c: "call fuel S w m = Some (x, y)"
        using res True by (cases "call fuel S w m") auto
      have c1: "carried p k w y" using "4.IH"(1) [OF True] c valid inv by simp
      show ?thesis
      proof (cases x)
        case (Inl e)
        then show ?thesis using res True c c1 by simp
      next
        case (Inr b)
        have rest: "call_nodes fuel S y ms = Some (r, w')" using res True c Inr by simp
        have vy: "\<forall>m \<in> set ms. m < length (heap y)"
          using valid carried_length [OF c1] by auto
        have "carried p k y w'"
          using "4.IH"(2) [OF True c refl Inr] rest vy carried_inv [OF c1] by simp
        then show ?thesis by (rule carried_trans [OF c1])
      qed
    qed
  qed
qed

text \<open>
  Claim C3. Let the key \<open>k\<close> of a parent be cached as a child that is pending Add, with
  \<open>k\<close> in the added children of the parent, the child being the only node under the parent
  with that name. Then deleting the child by its key returns, sets the action of the child
  to Delete, puts \<open>k\<close> into the deleted children and leaves it in the added children; and
  whatever node of the tree is committed afterwards, with whatever outcome, \<open>k\<close> is still
  in the added children of the parent.
\<close>

theorem delete_of_added_child:
  assumes "storage_wf (heap w)" "p < length (heap w)"
    "map_of (storage (heap w ! p)) k = Some c"
    "action (heap w ! c) = Some ACTION_ADD"
    "Some k \<in> set (added_children (heap w ! p))"
    "\<forall>m < length (heap w). parent (heap w ! m) = Some p \<and> name (heap w ! m) = Some k \<longrightarrow> m = c"
  shows
    "fst (delitem S w p k) = Inr ()
     \<and> action (heap (snd (delitem S w p k)) ! c) = Some ACTION_DELETE
     \<and> Some k \<in> set (deleted_children (heap (snd (delitem S w p k)) ! p))
     \<and> Some k \<in> set (added_children (heap (snd (delitem S w p k)) ! p))
     \<and> (\<forall>n fuel r w'. n < length (heap (snd (delitem S w p k)))
            \<and> call fuel S (snd (delitem S w p k)) n = Some (r, w')
          \<longrightarrow> Some k \<in> set (added_children (heap w' ! p)))"
proof -
  let ?w2 = "update_node c (\<lambda>nd. nd\<lparr>action := Some ACTION_DELETE\<rparr>) w"
  let ?w3 = "?w2\<lparr>heap := flags_after (heap ?w2) c True\<rparr>"
  let ?w4 = "update_node p
       (\<lambda>nd. nd\<lparr>deleted_children := set_add (Some k) (deleted_children nd)\<rparr>) ?w3"
  have c: "c < length (heap w)"
  proof -
    have "c \<in> snd ` set (storage (heap w ! p))"
      using assms(3) by (metis map_of_SomeD snd_conv image_eqI)
    then show ?thesis using assms(1,2) by (auto simp: storage_wf_def)
  qed
  have g: "getitem S w p (Some k) = (Inr c, w)" using assms(3) by (simp add: getitem_def)
  have d: "delitem S w p k = (Inr (), ?w4)" using g by (simp add: delitem_def Let_def)
  have len: "length (heap ?w4) = length (heap w)" by simp
  have act: "action (heap ?w4 ! m) = (if m = c then Some ACTION_DELETE else action (heap w ! m))" for m
    using c by (simp add: nth_update_any)
  have nm: "name (heap ?w4 ! m) = name (heap w ! m)" "parent (heap ?w4 ! m) = parent (heap w ! m)"
    "added_children (heap ?w4 ! m) = added_children (heap w ! m)"
    "storage (heap ?w4 ! m) = storage (heap w ! m)" for m
    by (simp_all add: nth_update_any)
  have del: "Some k \<in> set (deleted_children (heap ?w4 ! p))"
    using assms(2) by (simp add: nth_update_any set_add_def)
  have wf: "storage_wf (heap ?w4)"
    using assms(1) unfolding storage_wf_def len nm by simp
  have st: "stale_added p k (heap ?w4)"
    unfolding stale_added_def len nm act using assms(2,5,6) by auto
  have inv: "commit_inv p k (heap ?w4)" using wf st by (simp add: commit_inv_def)
  have after: "Some k \<in> set (added_children (heap w' ! p))"
    if "n < length (heap ?w4)" "call fuel S ?w4 n = Some (r, w')" for n fuel r w'
  proof -
    have "carried p k ?w4 w'" using call_carried [of fuel S ?w4 n p k] that inv by blast
    then show ?thesis by (simp add: carried_def commit_inv_def stale_added_def)
  qed
  show ?thesis
    unfolding d using act [of c] del nm(3) [of p] assms(5) after by auto
qed

lemmas commit_defs =
  getitem_def delitem_def call_self_def call_action_def remove_from_parent_def
  ldap_delete_def ldap_add_def ldap_modify_def session_call_def probe_query_def

theorem delete_of_added_child_witness:
  "fst (delitem example_env added_world 0 ''cn=b'') = Inr ()
   \<and> action (heap (snd (delitem example_env added_world 0 ''cn=b'')) ! 1) = Some ACTION_DELETE
   \<and> Some ''cn=b'' \<in> set (deleted_children (heap (snd (delitem example_env added_world 0 ''cn=b'')) ! 0))
   \<and> fst (the (call 3 example_env (snd (delitem example_env added_world 0 ''cn=b'')) 0)) = Inr ()
   \<and> Some ''cn=b'' \<in> set (added_children
        (heap (snd (the (call 3 example_env (snd (delitem example_env added_world 0 ''cn=b'')) 0))) ! 0))"
proof -
  let ?w1 = "snd (delitem example_env added_world 0 ''cn=b'')"
  have h1: "storage_wf (heap added_world)"
    by (auto simp: storage_wf_def added_world_def new_node_def less_Suc_eq nth_Cons')
  have h2: "0 < length (heap added_world)"
    and h3: "map_of (storage (heap added_world ! 0)) ''cn=b'' = Some 1"
    and h4: "action (heap added_world ! 1) = Some ACTION_ADD"
    and h5: "Some ''cn=b'' \<in> set (added_children (heap added_world ! 0))"
    by (simp_all add: added_world_def new_node_def)
  have h6: "\<forall>m < length (heap added_world).
      parent (heap added_world ! m) = Some 0 \<and> name (heap added_world ! m) = Some ''cn=b''
        \<longrightarrow> m = 1"
    by (auto simp: added_world_def new_node_def less_Suc_eq nth_Cons')
  have run: "call 3 example_env ?w1 0 \<noteq> None"
    and ok: "fst (the (call 3 example_env ?w1 0)) = Inr ()"
    by (simp_all add: eval_nat_numeral added_world_def commit_defs model_defs example_defs)
  have n: "0 < length (heap ?w1)"
    by (simp add: added_world_def commit_defs model_defs example_defs)
  obtain r w' where res: "call 3 example_env ?w1 0 = Some (r, w')"
    using run by (cases "call 3 example_env ?w1 0") auto
  note T = delete_of_added_child [OF h1 h2 h3 h4 h5 h6, of example_env]
  have "Some ''cn=b'' \<in> set (added_children (heap w' ! 0))"
    using T n res by blast
  then have after: "Some ''cn=b'' \<in> set (added_children
        (heap (snd (the (call 3 example_env ?w1 0))) ! 0))"
    by (simp add: res)
  from T ok after show ?thesis by blast
qed

end
